theory Spec2Isabelle
  imports Main "HOL-Library.Char_ord" "HOL-Library.List_Lexorder"
begin

section \<open>Overview\<close>

text \<open>
  A shallow embedding of jsonxx.cc: the token matcher, the scalar parsers, the
  recursive parsers \<^verbatim>\<open>Value::parse\<close>, \<^verbatim>\<open>Array::parse\<close> and \<^verbatim>\<open>Object::parse\<close>, the
  JSON serializer and the XML serializer, followed by the properties the specification
  claims of them. Functions keep the names of the source; a function that reads the
  stream takes it as an argument and returns it with its result.

  What the source takes from its header or from the platform is a parameter:
  \<^item> \<open>strict\<close>, the flag \<^verbatim>\<open>settings::strict\<close>;
  \<^item> \<open>strtod\<close> and \<open>num_put\<close>, the conversion of a numeric field to a number and the
    formatting of a number, over an arbitrary type \<open>'n\<close> of numbers;
  \<^item> \<open>char_signed\<close>, whether plain \<^verbatim>\<open>char\<close> is a signed type;
  \<^item> \<open>xml_tag\<close>, the text of the macro \<^verbatim>\<open>JSONXX_XML_TAG\<close>.
\<close>

section \<open>The input stream\<close>

text \<open>
  The parser of jsonxx.cc reads a \<^verbatim>\<open>std::istream\<close>. The stream is the C++ standard
  library's, not this repository's, so it is modelled here after the C++11 standard
  (clause 27.7.2, as implemented by libstdc++) for a \<^verbatim>\<open>std::istringstream\<close>: a
  constant buffer, the index of the next character to read, and the three state bits.
\<close>

record istream =
  buf :: string
  gpos :: nat
  eofbit :: bool
  failbit :: bool
  badbit :: bool

definition istream_of :: "string \<Rightarrow> istream" where
  "istream_of text = \<lparr>buf = text, gpos = 0, eofbit = False, failbit = False, badbit = False\<rparr>"

text \<open>\<^verbatim>\<open>good()\<close>, \<^verbatim>\<open>fail()\<close>, \<^verbatim>\<open>eof()\<close> and \<^verbatim>\<open>clear()\<close> of \<^verbatim>\<open>std::ios\<close>;
  a stream in a boolean context (\<^verbatim>\<open>while (input && ...)\<close>) is \<^verbatim>\<open>!fail()\<close>.\<close>

definition good :: "istream \<Rightarrow> bool" where
  "good s = (\<not> eofbit s \<and> \<not> failbit s \<and> \<not> badbit s)"

definition fail :: "istream \<Rightarrow> bool" where
  "fail s = (failbit s \<or> badbit s)"

definition clear :: "istream \<Rightarrow> istream" where
  "clear s = s\<lparr>eofbit := False, failbit := False, badbit := False\<rparr>"

text \<open>The characters not yet read.\<close>

definition remaining :: "istream \<Rightarrow> string" where
  "remaining s = drop (gpos s) (buf s)"

text \<open>\<^verbatim>\<open>rdbuf()->sgetc()\<close>: the next character, or nothing at the end of the buffer.\<close>

definition sgetc :: "istream \<Rightarrow> char option" where
  "sgetc s = (if gpos s < length (buf s) then Some (buf s ! gpos s) else None)"

text \<open>The \<^verbatim>\<open>sentry\<close> every input function constructs first (here with
  \<^verbatim>\<open>noskipws = true\<close>): on a stream that is not \<^verbatim>\<open>good()\<close> it sets
  \<^verbatim>\<open>failbit\<close> and the function does nothing more.\<close>

definition sentry :: "istream \<Rightarrow> bool \<times> istream" where
  "sentry s = (if good s then (True, s) else (False, s\<lparr>failbit := True\<rparr>))"

text \<open>\<^verbatim>\<open>input.get(ch)\<close>: extracts one character into \<^verbatim>\<open>ch\<close>. When nothing is
  extracted, \<^verbatim>\<open>ch\<close> keeps its old value and \<^verbatim>\<open>failbit\<close> is set (with
  \<^verbatim>\<open>eofbit\<close> at the end of the buffer).\<close>

definition get :: "istream \<Rightarrow> char \<Rightarrow> istream \<times> char" where
  "get s ch =
     (case sentry s of
        (False, s1) \<Rightarrow> (s1, ch)
      | (True, s1) \<Rightarrow>
          (case sgetc s1 of
             None \<Rightarrow> (s1\<lparr>eofbit := True, failbit := True\<rparr>, ch)
           | Some c \<Rightarrow> (s1\<lparr>gpos := Suc (gpos s1)\<rparr>, c)))"

text \<open>\<^verbatim>\<open>input.peek()\<close>: the next character without extracting it; \<^verbatim>\<open>EOF\<close>
  (here \<open>None\<close>) on a stream that is not good or is at its end, where \<^verbatim>\<open>eofbit\<close>
  is set.\<close>

definition peek :: "istream \<Rightarrow> istream \<times> char option" where
  "peek s =
     (case sentry s of
        (False, s1) \<Rightarrow> (s1, None)
      | (True, s1) \<Rightarrow>
          (case sgetc s1 of
             None \<Rightarrow> (s1\<lparr>eofbit := True\<rparr>, None)
           | Some c \<Rightarrow> (s1, Some c)))"

text \<open>\<^verbatim>\<open>input.putback(c)\<close>: clears \<^verbatim>\<open>eofbit\<close>, then, on a good stream, steps
  back over the previous character if it is \<^verbatim>\<open>c\<close>. A read-only string buffer cannot
  store another character, and has none before its start: \<^verbatim>\<open>badbit\<close>. On a stream
  that is not good the sentry sets \<^verbatim>\<open>failbit\<close> and nothing is put back.\<close>

definition putback :: "istream \<Rightarrow> char \<Rightarrow> istream" where
  "putback s c =
     (case sentry (s\<lparr>eofbit := False\<rparr>) of
        (False, s1) \<Rightarrow> s1
      | (True, s1) \<Rightarrow>
          if 0 < gpos s1 \<and> buf s1 ! (gpos s1 - 1) = c
          then s1\<lparr>gpos := gpos s1 - 1\<rparr>
          else s1\<lparr>badbit := True\<rparr>)"

text \<open>\<^verbatim>\<open>std::isspace\<close> in the "C" locale: space, \<^verbatim>\<open>\t \n \v \f \r\<close>.\<close>

definition isspace :: "char \<Rightarrow> bool" where
  "isspace c = (c = CHR '' '' \<or> c = CHR 0x09 \<or> c = CHR 0x0A \<or> c = CHR 0x0B
                \<or> c = CHR 0x0C \<or> c = CHR 0x0D)"

text \<open>\<^verbatim>\<open>input >> std::ws\<close>: on a good stream, extracts the leading whitespace and sets
  \<^verbatim>\<open>eofbit\<close> when it stops at the end of the buffer.\<close>

definition ws :: "istream \<Rightarrow> istream" where
  "ws s =
     (case sentry s of
        (False, s1) \<Rightarrow> s1
      | (True, s1) \<Rightarrow>
          (let n = length (takeWhile isspace (remaining s1));
               s2 = s1\<lparr>gpos := gpos s1 + n\<rparr>
           in if gpos s2 < length (buf s2) then s2 else s2\<lparr>eofbit := True\<rparr>))"

section \<open>Token matcher\<close>

text \<open>
  \<^verbatim>\<open>bool match(const char* pattern, std::istream& input)\<close>. The pattern is a C string:
  \<^verbatim>\<open>*cur != 0\<close> is "characters of the pattern are left". \<open>matched\<close> holds the
  characters between \<^verbatim>\<open>pattern\<close> and \<^verbatim>\<open>cur\<close>, last first, which is the order in
  which the inner loop puts them back.
\<close>

fun putback_all :: "istream \<Rightarrow> string \<Rightarrow> istream" where
  "putback_all s [] = s"
| "putback_all s (c # cs) = putback_all (putback s c) cs"

fun match_loop :: "string \<Rightarrow> string \<Rightarrow> char \<Rightarrow> istream \<Rightarrow> bool \<times> istream" where
  "match_loop matched [] ch s = (True, s)"
| "match_loop matched (c # cs) ch s =
     (if \<not> fail s \<and> \<not> eofbit s then
        (case get s ch of (s1, ch1) \<Rightarrow>
           if ch1 \<noteq> c then (False, putback_all (putback s1 ch1) matched)
           else match_loop (c # matched) cs ch1 s1)
      else (False, s))"

definition match :: "string \<Rightarrow> istream \<Rightarrow> bool \<times> istream" where
  "match pattern input = match_loop [] pattern (CHR 0x00) (ws input)"

section \<open>Scalar parsers\<close>

abbreviation dquote :: char where "dquote \<equiv> CHR 0x22"
abbreviation squote :: char where "squote \<equiv> CHR 0x27"
abbreviation backslash :: char where "backslash \<equiv> CHR 0x5C"

text \<open>The \<^verbatim>\<open>switch\<close> of \<^verbatim>\<open>parse_string\<close> on the character after a backslash:
  what is appended to the value.\<close>

definition unescape :: "char \<Rightarrow> char \<Rightarrow> string" where
  "unescape delimiter ch =
     (if ch = backslash \<or> ch = CHR ''/'' then [ch]
      else if ch = CHR ''b'' then [CHR 0x08]
      else if ch = CHR ''f'' then [CHR 0x0C]
      else if ch = CHR ''n'' then [CHR 0x0A]
      else if ch = CHR ''r'' then [CHR 0x0D]
      else if ch = CHR ''t'' then [CHR 0x09]
      else if ch \<noteq> delimiter then [backslash, ch]
      else [ch])"

text \<open>The \<^verbatim>\<open>while\<close> loop of \<^verbatim>\<open>parse_string\<close>. It returns the stream, the last
  value of \<^verbatim>\<open>ch\<close> and the value slot. The second \<^verbatim>\<open>get\<close> is not checked by the
  source: when it extracts nothing, \<^verbatim>\<open>ch\<close> is still the backslash.\<close>

function parse_string_loop :: "char \<Rightarrow> istream \<Rightarrow> char \<Rightarrow> string \<Rightarrow> istream \<times> char \<times> string" where
  "parse_string_loop delimiter s ch val =
     (if \<not> eofbit s \<and> good s then
        (case get s ch of (s1, ch1) \<Rightarrow>
           if ch1 = delimiter then (s1, ch1, val)
           else if ch1 = backslash then
             (case get s1 ch1 of (s2, ch2) \<Rightarrow>
                parse_string_loop delimiter s2 ch2 (val @ unescape delimiter ch2))
           else parse_string_loop delimiter s1 ch1 (val @ [ch1]))
      else (s, ch, val))"
  by pat_completeness auto
termination
  by (relation "measure (\<lambda>(d, s, ch, v). if good s then Suc (length (buf s) - gpos s) else 0)")
     (auto simp: get_def sentry_def good_def sgetc_def split: if_splits option.splits)

declare parse_string_loop.simps [simp del]

text \<open>
  \<^verbatim>\<open>bool parse_string(std::istream& input, String* value)\<close>, with
  \<^verbatim>\<open>settings::strict\<close> as the argument \<open>strict\<close>. The result is the returned flag,
  the stream and the value slot. The source declares \<^verbatim>\<open>ch\<close> without a value; it is
  read before being assigned only when the first \<^verbatim>\<open>get\<close> of the loop extracts nothing,
  and then \<^verbatim>\<open>failbit\<close> makes the function return false whatever \<^verbatim>\<open>ch\<close> holds.
  The model starts it as NUL.
\<close>

definition parse_string_body :: "char \<Rightarrow> istream \<Rightarrow> char \<Rightarrow> string \<Rightarrow> bool \<times> istream \<times> string" where
  "parse_string_body delimiter s ch val =
     (case parse_string_loop delimiter s ch val of
        (s', ch', val') \<Rightarrow> (\<not> fail s' \<and> ch' = delimiter, s', val'))"

definition parse_string :: "bool \<Rightarrow> istream \<Rightarrow> string \<Rightarrow> bool \<times> istream \<times> string" where
  "parse_string strict input val =
     (case match [dquote] input of (ok, s1) \<Rightarrow>
        if ok then parse_string_body dquote s1 (CHR 0x00) val
        else if strict then (False, s1, val)
        else (case peek s1 of (s2, c) \<Rightarrow>
                if c \<noteq> Some squote then (False, s2, val)
                else (case get s2 (CHR 0x00) of (s3, ch) \<Rightarrow>
                        parse_string_body squote s3 ch val)))"

text \<open>\<^verbatim>\<open>static bool parse_bool(std::istream& input, Boolean* value)\<close>; the slot is
  written on success only.\<close>

definition parse_bool :: "istream \<Rightarrow> bool \<times> istream \<times> bool option" where
  "parse_bool input =
     (case match ''true'' input of (ok, s1) \<Rightarrow>
        if ok then (True, s1, Some True)
        else (case match ''false'' s1 of (ok2, s2) \<Rightarrow>
                if ok2 then (True, s2, Some False) else (False, s2, None)))"

text \<open>\<^verbatim>\<open>static bool parse_null(std::istream& input)\<close>.\<close>

definition parse_null :: "bool \<Rightarrow> istream \<Rightarrow> bool \<times> istream" where
  "parse_null strict input =
     (case match ''null'' input of (ok, s1) \<Rightarrow>
        if ok then (True, s1)
        else if strict then (False, s1)
        else (case peek s1 of (s2, c) \<Rightarrow> (c = Some (CHR '',''), s2)))"

subsection \<open>Numbers\<close>

text \<open>
  \<^verbatim>\<open>input >> *value\<close> for a \<^verbatim>\<open>double\<close> is the standard library's
  \<^verbatim>\<open>num_get\<close>. Its stage 2 decides which characters are extracted; it is modelled
  here as libstdc++ implements it for the "C" locale: an optional sign, leading zeros
  (of which one is kept), then digits, at most one decimal point before any exponent,
  and at most one \<^verbatim>\<open>e\<close> or \<^verbatim>\<open>E\<close> after a digit, with an optional sign behind it. Each
  function returns the characters accumulated and the characters left.
\<close>

definition is_digit :: "char \<Rightarrow> bool" where
  "is_digit c = (CHR ''0'' \<le> c \<and> c \<le> CHR ''9'')"

definition is_sign :: "char \<Rightarrow> bool" where
  "is_sign c = (c = CHR ''+'' \<or> c = CHR ''-'')"

fun float_sign :: "string \<Rightarrow> string \<times> string" where
  "float_sign [] = ([], [])"
| "float_sign (c # cs) = (if is_sign c then ([c], cs) else ([], c # cs))"

definition float_zeros :: "string \<Rightarrow> string \<times> string" where
  "float_zeros cs =
     (case cs of
        [] \<Rightarrow> ([], [])
      | c # _ \<Rightarrow> if c = CHR ''0'' then (''0'', dropWhile (\<lambda>d. d = CHR ''0'') cs) else ([], cs))"

fun float_loop :: "bool \<Rightarrow> bool \<Rightarrow> bool \<Rightarrow> string \<Rightarrow> string \<times> string" where
  "float_loop found_mantissa found_dec found_sci [] = ([], [])"
| "float_loop found_mantissa found_dec found_sci (c # cs) =
     (if is_digit c then
        (case float_loop True found_dec found_sci cs of (xtrc, rest) \<Rightarrow> (c # xtrc, rest))
      else if c = CHR ''.'' \<and> \<not> found_dec \<and> \<not> found_sci then
        (case float_loop found_mantissa True found_sci cs of (xtrc, rest) \<Rightarrow> (c # xtrc, rest))
      else if (c = CHR ''e'' \<or> c = CHR ''E'') \<and> \<not> found_sci \<and> found_mantissa then
        (case cs of
           [] \<Rightarrow> (''e'', [])
         | d # ds \<Rightarrow>
             if is_sign d then
               (case float_loop found_mantissa found_dec True ds of
                  (xtrc, rest) \<Rightarrow> (CHR ''e'' # d # xtrc, rest))
             else
               (case float_loop found_mantissa found_dec True (d # ds) of
                  (xtrc, rest) \<Rightarrow> (CHR ''e'' # xtrc, rest)))
      else ([], c # cs))"

definition extract_float :: "string \<Rightarrow> string \<times> string" where
  "extract_float cs =
     (case float_sign cs of (sg, cs1) \<Rightarrow>
      case float_zeros cs1 of (z, cs2) \<Rightarrow>
      case float_loop (z \<noteq> []) False False cs2 of (xtrc, cs3) \<Rightarrow> (sg @ z @ xtrc, cs3))"

text \<open>The sentry of a formatted input function (\<^verbatim>\<open>noskipws = false\<close>): on a good
  stream it skips whitespace first, and fails with \<^verbatim>\<open>eofbit\<close> and \<^verbatim>\<open>failbit\<close>
  when that reaches the end.\<close>

definition sentry_skipws :: "istream \<Rightarrow> bool \<times> istream" where
  "sentry_skipws s =
     (if good s then
        (let n = length (takeWhile isspace (remaining s));
             s1 = s\<lparr>gpos := gpos s + n\<rparr>
         in if gpos s1 < length (buf s1) then (True, s1)
            else (False, s1\<lparr>eofbit := True, failbit := True\<rparr>))
      else (False, s\<lparr>failbit := True\<rparr>))"

text \<open>
  Stage 3 converts the accumulated field with \<^verbatim>\<open>strtod\<close>. Floating point is outside
  this development: the conversion is the parameter \<open>strtod\<close>, of a field to a number of
  an arbitrary type \<open>'n\<close>, and \<open>None\<close> where the library reports a failure (a field
  that is not a complete number, or one out of range). An empty field is never
  converted. Failure sets \<^verbatim>\<open>failbit\<close>; having read up to the end of the buffer sets
  \<^verbatim>\<open>eofbit\<close>.
\<close>

definition extract_double :: "(string \<Rightarrow> 'n option) \<Rightarrow> istream \<Rightarrow> istream \<times> 'n option" where
  "extract_double strtod s =
     (case sentry_skipws s of (ok, s1) \<Rightarrow>
        if \<not> ok then (s1, None)
        else (case extract_float (remaining s1) of (field, rest) \<Rightarrow>
                let s2 = s1\<lparr>gpos := length (buf s1) - length rest\<rparr>;
                    v = (if field = [] then None else strtod field);
                    s3 = (if rest = [] then s2\<lparr>eofbit := True\<rparr> else s2)
                in (if v = None then s3\<lparr>failbit := True\<rparr> else s3, v)))"

text \<open>\<^verbatim>\<open>bool parse_number(std::istream& input, Number* value)\<close>.\<close>

definition parse_number :: "(string \<Rightarrow> 'n option) \<Rightarrow> istream \<Rightarrow> bool \<times> istream \<times> 'n option" where
  "parse_number strtod input =
     (case extract_double strtod (ws input) of (s1, v) \<Rightarrow>
        if fail s1 then (False, clear s1, v) else (True, s1, v))"

section \<open>Values, arrays and objects\<close>

text \<open>
  Modelled from the spec: the classes \<^verbatim>\<open>Value\<close>, \<^verbatim>\<open>Array\<close> and \<^verbatim>\<open>Object\<close> are
  declared in jsonxx.h, which is not among the sources; their members are known from
  their uses in jsonxx.cc and from section 3 of the specification. A \<^verbatim>\<open>Value\<close> is
  the tag \<^verbatim>\<open>type_\<close> with one payload member per tag (a closed sum of six variants), and
  a freshly constructed \<^verbatim>\<open>Value\<close> has the tag \<^verbatim>\<open>INVALID_\<close>. An \<^verbatim>\<open>Array\<close> holds
  \<^verbatim>\<open>std::vector<Value*> values_\<close>, an \<^verbatim>\<open>Object\<close> holds
  \<^verbatim>\<open>std::map<std::string, Value*> value_map_\<close>. The number type is the parameter
  \<open>'n\<close>. The tags are the source's \<^verbatim>\<open>NUMBER_\<close> ... \<^verbatim>\<open>INVALID_\<close>, written without
  the final underscore. \<^verbatim>\<open>is<T>()\<close> tests the tag.
\<close>

datatype type_tag = NUMBER | STRING | BOOL | NULL | ARRAY | OBJECT | INVALID

datatype 'n Value =
    Invalid_value
  | Number_value 'n
  | String_value string
  | Bool_value bool
  | Null_value
  | Array_value "'n Value list"
  | Object_value "(string \<times> 'n Value) list"

type_synonym 'n Array = "'n Value list"
type_synonym 'n Object = "(string \<times> 'n Value) list"

text \<open>The member \<^verbatim>\<open>type_\<close> of a value.\<close>

fun value_type :: "'n Value \<Rightarrow> type_tag" where
  "value_type Invalid_value = INVALID"
| "value_type (Number_value n) = NUMBER"
| "value_type (String_value s) = STRING"
| "value_type (Bool_value b) = BOOL"
| "value_type Null_value = NULL"
| "value_type (Array_value a) = ARRAY"
| "value_type (Object_value ob) = OBJECT"

text \<open>
  A \<^verbatim>\<open>std::map\<close> keeps its entries in ascending key order, here of
  \<^verbatim>\<open>std::string\<close>'s \<^verbatim>\<open>operator<\<close> (lexicographic on unsigned bytes, which is the
  order of \<^typ>\<open>string\<close>). It is modelled by the list of its entries in iteration order;
  \<^verbatim>\<open>value_map_[key] = v\<close> inserts the key at its place or overwrites the entry that
  has it.
\<close>

fun map_assign :: "string \<Rightarrow> 'v \<Rightarrow> (string \<times> 'v) list \<Rightarrow> (string \<times> 'v) list" where
  "map_assign k v [] = [(k, v)]"
| "map_assign k v ((k', v') # kvs) =
     (if k < k' then (k, v) # (k', v') # kvs
      else if k = k' then (k, v) # kvs
      else (k', v') # map_assign k v kvs)"

text \<open>\<^verbatim>\<open>void Value::reset()\<close> deletes the string, object or array the value owns.
  It assigns nothing to \<^verbatim>\<open>type_\<close>: the tag is the one the value had. The model has
  no heap; of a value that was reset only the tag is meaningful.\<close>

definition reset :: "'n Value \<Rightarrow> 'n Value" where
  "reset v = v"

subsection \<open>The recursive parsers\<close>

text \<open>
  \<^verbatim>\<open>Value::parse\<close>, \<^verbatim>\<open>Array::parse\<close> and \<^verbatim>\<open>Object::parse\<close> call each other, and
  their loops end when the stream says so. The body of each function is given first,
  with the functions it calls as arguments; a result is the returned flag, the
  stream, and the object written to, and \<open>None\<close> stands for a call that did not return.
  \<open>strict\<close> is \<^verbatim>\<open>settings::strict\<close>.
\<close>

type_synonym 'n value_result = "(bool \<times> istream \<times> 'n Value) option"
type_synonym 'n array_result = "(bool \<times> istream \<times> 'n Array) option"
type_synonym 'n object_result = "(bool \<times> istream \<times> 'n Object) option"

text \<open>\<^verbatim>\<open>bool Value::parse(std::istream& input, Value& value)\<close>.\<close>

text \<open>The source calls \<^verbatim>\<open>value.reset()\<close> first and assigns the tag and the payload on
  the path that succeeds; the model returns the new value there, and what \<open>reset\<close> has
  left of the old one where every alternative has failed.\<close>

definition Value_parse_body ::
  "bool \<Rightarrow> (string \<Rightarrow> 'n option) \<Rightarrow> (istream \<Rightarrow> 'n array_result) \<Rightarrow> (istream \<Rightarrow> 'n object_result)
     \<Rightarrow> istream \<Rightarrow> 'n Value \<Rightarrow> 'n value_result" where
  "Value_parse_body strict strtod array_parse object_parse input val =
     (case parse_string strict input [] of (ok1, s1, string_value) \<Rightarrow>
      if ok1 then Some (True, s1, String_value string_value) else
     (case parse_number strtod s1 of (ok2, s2, number_value) \<Rightarrow>
      if ok2 then Some (True, s2, Number_value (the number_value)) else
     (case parse_bool s2 of (ok3, s3, bool_value) \<Rightarrow>
      if ok3 then Some (True, s3, Bool_value (the bool_value)) else
     (case parse_null strict s3 of (ok4, s4) \<Rightarrow>
      if ok4 then Some (True, s4, Null_value) else
     (case peek s4 of (s5, c) \<Rightarrow>
     (case (if c = Some (CHR ''['') then array_parse s5 else Some (False, s5, [])) of
        None \<Rightarrow> None
      | Some (ok5, s6, array_value) \<Rightarrow>
      if ok5 then Some (True, s6, Array_value array_value) else
     (case object_parse s6 of
        None \<Rightarrow> None
      | Some (ok6, s7, object_value) \<Rightarrow>
      if ok6 then Some (True, s7, Object_value object_value)
      else Some (False, s7, reset val))))))))"

text \<open>\<^verbatim>\<open>bool Array::parse(std::istream& input, Array& array)\<close>; \<open>array_loop\<close> is its
  \<^verbatim>\<open>do ... while (match(",", input))\<close> loop, started on the cleared vector.\<close>

definition Array_parse_body ::
  "(istream \<Rightarrow> 'n Array \<Rightarrow> (istream \<times> 'n Array) option) \<Rightarrow> istream \<Rightarrow> 'n array_result" where
  "Array_parse_body array_loop input =
     (case match ''['' input of (ok1, s1) \<Rightarrow>
      if \<not> ok1 then Some (False, s1, []) else
     (case array_loop s1 [] of
        None \<Rightarrow> None
      | Some (s2, values) \<Rightarrow>
     (case match '']'' s2 of (ok2, s3) \<Rightarrow> Some (ok2, s3, values))))"

text \<open>One iteration of the loop of \<^verbatim>\<open>Array::parse\<close>; \<open>again\<close> is the next iteration.\<close>

definition Array_loop_body ::
  "(istream \<Rightarrow> 'n Value \<Rightarrow> 'n value_result) \<Rightarrow> (istream \<Rightarrow> 'n Array \<Rightarrow> (istream \<times> 'n Array) option)
     \<Rightarrow> istream \<Rightarrow> 'n Array \<Rightarrow> (istream \<times> 'n Array) option" where
  "Array_loop_body value_parse again input values =
     (case value_parse input Invalid_value of
        None \<Rightarrow> None
      | Some (ok1, s1, v) \<Rightarrow>
      if \<not> ok1 then Some (s1, values) else
     (case match '','' s1 of (ok2, s2) \<Rightarrow>
      if ok2 then again s2 (values @ [v]) else Some (s2, values @ [v])))"

text \<open>\<^verbatim>\<open>bool Object::parse(std::istream& input, Object& object)\<close>. The flag of the
  loop is false where the source returns false from inside the loop, and true where it
  leaves the loop, by \<^verbatim>\<open>break\<close> or by its condition.\<close>

definition Object_parse_body ::
  "(istream \<Rightarrow> 'n Object \<Rightarrow> 'n object_result) \<Rightarrow> istream \<Rightarrow> 'n object_result" where
  "Object_parse_body object_loop input =
     (case match ''{'' input of (ok1, s1) \<Rightarrow>
      if \<not> ok1 then Some (False, s1, []) else
     (case match ''}'' s1 of (ok2, s2) \<Rightarrow>
      if ok2 then Some (True, s2, []) else
     (case object_loop s2 [] of
        None \<Rightarrow> None
      | Some (left_loop, s3, value_map) \<Rightarrow>
      if \<not> left_loop then Some (False, s3, value_map) else
     (case match ''}'' s3 of (ok3, s4) \<Rightarrow> Some (ok3, s4, value_map)))))"

text \<open>One iteration of the loop of \<^verbatim>\<open>Object::parse\<close>.\<close>

definition Object_loop_body ::
  "bool \<Rightarrow> (istream \<Rightarrow> 'n Value \<Rightarrow> 'n value_result) \<Rightarrow> (istream \<Rightarrow> 'n Object \<Rightarrow> 'n object_result)
     \<Rightarrow> istream \<Rightarrow> 'n Object \<Rightarrow> 'n object_result" where
  "Object_loop_body strict value_parse again input value_map =
     (case parse_string strict input [] of (ok1, s1, key) \<Rightarrow>
      if \<not> ok1 then
        (if \<not> strict then
           (case peek s1 of (s2, c) \<Rightarrow> Some (c = Some (CHR ''}''), s2, value_map))
         else Some (False, s1, value_map))
      else
     (case match '':'' s1 of (ok2, s2) \<Rightarrow>
      if \<not> ok2 then Some (False, s2, value_map) else
     (case value_parse s2 Invalid_value of
        None \<Rightarrow> None
      | Some (ok3, s3, v) \<Rightarrow>
      if \<not> ok3 then Some (True, s3, value_map) else
     (case match '','' s3 of (ok4, s4) \<Rightarrow>
      if ok4 then again s4 (map_assign key v value_map)
      else Some (True, s4, map_assign key v value_map)))))"

text \<open>
  The recursion is tied with a budget. A loop given \<open>fuel\<close> makes at most \<open>fuel\<close>
  iterations; \<open>Value_parse\<close> given \<open>Suc fuel\<close> calls \<open>Array_parse\<close> and
  \<open>Object_parse\<close> with \<open>fuel\<close>, whose loops have \<open>fuel\<close> iterations and call
  \<open>Value_parse\<close> with \<open>fuel\<close>. A function that has no budget left returns \<open>None\<close>.
\<close>

primrec Array_loop :: "nat \<Rightarrow> (istream \<Rightarrow> 'n Value \<Rightarrow> 'n value_result) \<Rightarrow> istream \<Rightarrow> 'n Array
      \<Rightarrow> (istream \<times> 'n Array) option" where
  "Array_loop 0 value_parse input values = None"
| "Array_loop (Suc fuel) value_parse input values =
     Array_loop_body value_parse (Array_loop fuel value_parse) input values"

primrec Object_loop :: "nat \<Rightarrow> bool \<Rightarrow> (istream \<Rightarrow> 'n Value \<Rightarrow> 'n value_result) \<Rightarrow> istream
      \<Rightarrow> 'n Object \<Rightarrow> 'n object_result" where
  "Object_loop 0 strict value_parse input value_map = None"
| "Object_loop (Suc fuel) strict value_parse input value_map =
     Object_loop_body strict value_parse (Object_loop fuel strict value_parse) input value_map"

primrec Value_parse :: "nat \<Rightarrow> bool \<Rightarrow> (string \<Rightarrow> 'n option) \<Rightarrow> istream \<Rightarrow> 'n Value
      \<Rightarrow> 'n value_result" where
  "Value_parse 0 strict strtod input val = None"
| "Value_parse (Suc fuel) strict strtod input val =
     Value_parse_body strict strtod
       (Array_parse_body (Array_loop fuel (Value_parse fuel strict strtod)))
       (Object_parse_body (Object_loop fuel strict (Value_parse fuel strict strtod)))
       input val"

definition Array_parse :: "nat \<Rightarrow> bool \<Rightarrow> (string \<Rightarrow> 'n option) \<Rightarrow> istream \<Rightarrow> 'n array_result" where
  "Array_parse fuel strict strtod input =
     Array_parse_body (Array_loop fuel (Value_parse fuel strict strtod)) input"

definition Object_parse :: "nat \<Rightarrow> bool \<Rightarrow> (string \<Rightarrow> 'n option) \<Rightarrow> istream \<Rightarrow> 'n object_result" where
  "Object_parse fuel strict strtod input =
     Object_parse_body (Object_loop fuel strict (Value_parse fuel strict strtod)) input"

section \<open>JSON serializer\<close>

text \<open>
  \<^verbatim>\<open>stream << std::hex << std::setw(6) << std::setfill('0') << static_cast<int>(*i)\<close>.
  Whether plain \<^verbatim>\<open>char\<close> is signed is the platform's choice (it is on x86); it is the
  parameter \<open>char_signed\<close>. A negative \<^verbatim>\<open>int\<close> is written in hexadecimal as the
  32-bit unsigned number with the same bits.
\<close>

definition int_of_char :: "bool \<Rightarrow> char \<Rightarrow> int" where
  "int_of_char char_signed c =
     (if char_signed \<and> 128 \<le> (of_char c :: nat) then int (of_char c) - 256 else int (of_char c))"

definition hex_digit :: "nat \<Rightarrow> char" where
  "hex_digit d = ''0123456789abcdef'' ! (d mod 16)"

fun hex_of_nat :: "nat \<Rightarrow> string" where
  "hex_of_nat n = (if n < 16 then [hex_digit n] else hex_of_nat (n div 16) @ [hex_digit n])"

declare hex_of_nat.simps [simp del]

definition hex_of_int :: "int \<Rightarrow> string" where
  "hex_of_int i = hex_of_nat (nat (i mod 2 ^ 32))"

text \<open>\<^verbatim>\<open>std::setw(w) << std::setfill(c)\<close>: a shorter text is filled on the left.\<close>

definition setw_fill :: "nat \<Rightarrow> char \<Rightarrow> string \<Rightarrow> string" where
  "setw_fill w c text = replicate (w - length text) c @ text"

text \<open>The \<^verbatim>\<open>switch\<close> of \<^verbatim>\<open>stream_string\<close> on one character of the string.\<close>

definition stream_char :: "bool \<Rightarrow> char \<Rightarrow> string" where
  "stream_char char_signed c =
     (if c = dquote then [backslash, dquote]
      else if c = backslash then [backslash, backslash]
      else if c = CHR ''/'' then [backslash, CHR ''/'']
      else if c = CHR 0x08 then [backslash, CHR ''b'']
      else if c = CHR 0x0C then [backslash, CHR ''f'']
      else if c = CHR 0x0A then [backslash, CHR ''n'']
      else if c = CHR 0x0D then [backslash, CHR ''r'']
      else if c = CHR 0x09 then [backslash, CHR ''t'']
      else if int_of_char char_signed c < 32 then
        [backslash, CHR ''u''] @ setw_fill 6 (CHR ''0'') (hex_of_int (int_of_char char_signed c))
      else [c])"

text \<open>\<^verbatim>\<open>static std::ostream& stream_string(std::ostream&, const std::string&)\<close>; the
  model returns the text written.\<close>

definition stream_string :: "bool \<Rightarrow> string \<Rightarrow> string" where
  "stream_string char_signed str = [dquote] @ concat (map (stream_char char_signed) str) @ [dquote]"

text \<open>The loops of \<^verbatim>\<open>operator<<\<close> for arrays and objects write \<^verbatim>\<open>", "\<close> after every
  item but the last.\<close>

fun comma_separated :: "string list \<Rightarrow> string" where
  "comma_separated [] = []"
| "comma_separated [x] = x"
| "comma_separated (x # y # ys) = x @ '', '' @ comma_separated (y # ys)"

text \<open>
  The three \<^verbatim>\<open>operator<<\<close>. \<^verbatim>\<open>stream << double\<close> is the standard library's number
  formatting, the parameter \<open>num_put\<close>. A value that is of no type writes nothing.
\<close>

fun Value_out :: "('n \<Rightarrow> string) \<Rightarrow> bool \<Rightarrow> 'n Value \<Rightarrow> string" where
  "Value_out num_put char_signed (Number_value n) = num_put n"
| "Value_out num_put char_signed (String_value s) = stream_string char_signed s"
| "Value_out num_put char_signed (Bool_value b) = (if b then ''true'' else ''false'')"
| "Value_out num_put char_signed Null_value = ''null''"
| "Value_out num_put char_signed (Object_value kv) =
     ''{'' @ comma_separated
        (map (\<lambda>i. stream_string char_signed (fst i) @ '': '' @ Value_out num_put char_signed (snd i)) kv)
      @ ''}''"
| "Value_out num_put char_signed (Array_value values) =
     ''['' @ comma_separated (map (Value_out num_put char_signed) values) @ '']''"
| "Value_out num_put char_signed Invalid_value = []"

definition Array_out :: "('n \<Rightarrow> string) \<Rightarrow> bool \<Rightarrow> 'n Array \<Rightarrow> string" where
  "Array_out num_put char_signed values = Value_out num_put char_signed (Array_value values)"


section \<open>XML serializer\<close>

text \<open>Modelled from the spec: the enumeration \<^verbatim>\<open>format\<close> is declared in jsonxx.h,
  which is not among the sources. \<^verbatim>\<open>Object::xml\<close> and \<^verbatim>\<open>Array::xml\<close> assert that the
  format is one of \<^verbatim>\<open>jsonx\<close> and \<^verbatim>\<open>jxml\<close>, and the tables \<^verbatim>\<open>defheader\<close> and
  \<^verbatim>\<open>defrootattrib\<close> have one entry for each: by section 4.7 of the specification the
  entry with the schema attributes is that of \<^verbatim>\<open>jsonx\<close>. The \<^verbatim>\<open>default\<close> branches
  of \<^verbatim>\<open>open_tag\<close> and \<^verbatim>\<open>close_tag\<close> for other formats are not reached.\<close>

datatype format = jsonx | jxml

definition escape_string :: "string \<Rightarrow> string" where
  "escape_string input =
     concat (map (\<lambda>c. if c = dquote then [backslash, dquote]
                       else if c = squote then [backslash, squote] else [c]) input)"

definition escape_tag :: "string \<Rightarrow> string" where
  "escape_tag input =
     concat (map (\<lambda>c. if c = CHR ''<'' then ''&lt;''
                       else if c = CHR ''>'' then ''&gt;'' else [c]) input)"

definition open_tag :: "format \<Rightarrow> char \<Rightarrow> string \<Rightarrow> string \<Rightarrow> string" where
  "open_tag fmt type name attr =
     (let tagname =
        (case fmt of
           jxml \<Rightarrow>
             if name = [] then ''j son='' @ [dquote] @ [type] @ [dquote]
             else ''j son='' @ [dquote] @ [type] @ '':'' @ escape_string name @ [dquote]
         | jsonx \<Rightarrow>
             (let tagname = (if name \<noteq> [] then '' name='' @ [dquote] @ escape_string name @ [dquote]
                             else [])
              in if type = CHR ''b'' then ''json:boolean'' @ tagname
                 else if type = CHR ''a'' then ''json:array'' @ tagname
                 else if type = CHR ''s'' then ''json:string'' @ tagname
                 else if type = CHR ''o'' then ''json:object'' @ tagname
                 else if type = CHR ''n'' then ''json:number'' @ tagname
                 else ''json:null'' @ tagname))
      in ''<'' @ tagname @ attr @ ''>'')"

definition close_tag :: "format \<Rightarrow> char \<Rightarrow> string" where
  "close_tag fmt type =
     (case fmt of
        jxml \<Rightarrow> ''</j>''
      | jsonx \<Rightarrow>
          if type = CHR ''b'' then ''</json:boolean>''
          else if type = CHR ''a'' then ''</json:array>''
          else if type = CHR ''o'' then ''</json:object>''
          else if type = CHR ''s'' then ''</json:string>''
          else if type = CHR ''n'' then ''</json:number>''
          else ''</json:null>'')"

text \<open>\<^verbatim>\<open>std::string tag(unsigned format, unsigned depth, const std::string &name,
  const jsonxx::Value &t, const std::string &attr = std::string())\<close>. The recursive calls
  leave \<^verbatim>\<open>attr\<close> to its default, the empty string.\<close>

fun tag :: "('n \<Rightarrow> string) \<Rightarrow> format \<Rightarrow> nat \<Rightarrow> string \<Rightarrow> 'n Value \<Rightarrow> string \<Rightarrow> string" where
  "tag num_put fmt depth name (Bool_value b) attr =
     replicate depth (CHR 0x09) @ open_tag fmt (CHR ''b'') name []
       @ (if b then ''true'' else ''false'')
       @ close_tag fmt (CHR ''b'') @ [CHR 0x0A]"
| "tag num_put fmt depth name (Array_value values) attr =
     replicate depth (CHR 0x09) @ open_tag fmt (CHR ''a'') name attr @ [CHR 0x0A]
       @ concat (map (\<lambda>it. tag num_put fmt (depth + 1) [] it []) values)
       @ replicate depth (CHR 0x09) @ close_tag fmt (CHR ''a'') @ [CHR 0x0A]"
| "tag num_put fmt depth name (String_value s) attr =
     replicate depth (CHR 0x09) @ open_tag fmt (CHR ''s'') name []
       @ escape_tag s
       @ close_tag fmt (CHR ''s'') @ [CHR 0x0A]"
| "tag num_put fmt depth name (Object_value kv) attr =
     replicate depth (CHR 0x09) @ open_tag fmt (CHR ''o'') name attr @ [CHR 0x0A]
       @ concat (map (\<lambda>it. tag num_put fmt (depth + 1) (fst it) (snd it) []) kv)
       @ replicate depth (CHR 0x09) @ close_tag fmt (CHR ''o'') @ [CHR 0x0A]"
| "tag num_put fmt depth name (Number_value n) attr =
     replicate depth (CHR 0x09) @ open_tag fmt (CHR ''n'') name []
       @ num_put n
       @ close_tag fmt (CHR ''n'') @ [CHR 0x0A]"
| "tag num_put fmt depth name Null_value attr =
     replicate depth (CHR 0x09) @ open_tag fmt (CHR ''0'') name '' /'' @ [CHR 0x0A]"
| "tag num_put fmt depth name Invalid_value attr =
     replicate depth (CHR 0x09) @ open_tag fmt (CHR ''0'') name '' /'' @ [CHR 0x0A]"

text \<open>The tables \<^verbatim>\<open>defheader\<close> and \<^verbatim>\<open>defrootattrib\<close>. The macro
  \<^verbatim>\<open>JSONXX_XML_TAG\<close> is defined in jsonxx.h; its text is the parameter \<open>xml_tag\<close>.\<close>

definition defheader :: "string \<Rightarrow> format \<Rightarrow> string" where
  "defheader xml_tag fmt =
     ''<?xml version='' @ [dquote] @ ''1.0'' @ [dquote] @ '' encoding='' @ [dquote] @ ''UTF-8''
       @ [dquote] @ ''?>'' @ xml_tag @ [CHR 0x0A]"

definition defrootattrib :: "format \<Rightarrow> string" where
  "defrootattrib fmt =
     (case fmt of
        jsonx \<Rightarrow>
          '' xsi:schemaLocation='' @ [dquote] @ ''http://www.datapower.com/schemas/json jsonx.xsd''
            @ [dquote]
            @ '' xmlns:xsi='' @ [dquote] @ ''http://www.w3.org/2001/XMLSchema-instance'' @ [dquote]
            @ '' xmlns:json='' @ [dquote] @ ''http://www.ibm.com/xmlns/prod/2009/jsonx'' @ [dquote]
      | jxml \<Rightarrow> [])"

text \<open>\<^verbatim>\<open>Object::xml\<close> and \<^verbatim>\<open>Array::xml\<close>.\<close>

definition Object_xml :: "('n \<Rightarrow> string) \<Rightarrow> string \<Rightarrow> 'n Object \<Rightarrow> format \<Rightarrow> string \<Rightarrow> string \<Rightarrow> string" where
  "Object_xml num_put xml_tag this fmt header attrib =
     (let v = Object_value this;
          result = tag num_put fmt 0 [] v (if attrib = [] then defrootattrib fmt else attrib)
      in (if header = [] then defheader xml_tag fmt else header) @ result)"

definition Array_xml :: "('n \<Rightarrow> string) \<Rightarrow> string \<Rightarrow> 'n Array \<Rightarrow> format \<Rightarrow> string \<Rightarrow> string \<Rightarrow> string" where
  "Array_xml num_put xml_tag this fmt header attrib =
     (let v = Array_value this;
          result = tag num_put fmt 0 [] v (if attrib = [] then defrootattrib fmt else attrib)
      in (if header = [] then defheader xml_tag fmt else header) @ result)"

section \<open>Auxiliary definitions for the proofs\<close>

text \<open>A good stream of which \<open>pre\<close> has been read and \<open>rest\<close> is left.\<close>

definition stream_at :: "string \<Rightarrow> string \<Rightarrow> istream" where
  "stream_at pre rest =
     \<lparr>buf = pre @ rest, gpos = length pre, eofbit = False, failbit = False, badbit = False\<rparr>"


subsection \<open>C3: the order of the alternatives, in the words of the specification\<close>

text \<open>
  The specification describes \<open>Value::parse\<close> as a list of variants tried in a fixed
  order, the first success winning. \<open>attempt\<close> is one try of one variant on a stream:
  it gives the flag, the stream it leaves and the value it would bind. The array is
  tried only behind a peek for an opening bracket; the object is tried as it is.
\<close>

datatype variant = String_variant | Number_variant | Boolean_variant | Null_variant
  | Array_variant | Object_variant

fun attempt :: "bool \<Rightarrow> (string \<Rightarrow> 'n option) \<Rightarrow> (istream \<Rightarrow> 'n array_result)
     \<Rightarrow> (istream \<Rightarrow> 'n object_result) \<Rightarrow> variant \<Rightarrow> istream \<Rightarrow> 'n value_result" where
  "attempt strict strtod array_parse object_parse String_variant s =
     (case parse_string strict s [] of (ok, s', str) \<Rightarrow> Some (ok, s', String_value str))"
| "attempt strict strtod array_parse object_parse Number_variant s =
     (case parse_number strtod s of (ok, s', n) \<Rightarrow> Some (ok, s', Number_value (the n)))"
| "attempt strict strtod array_parse object_parse Boolean_variant s =
     (case parse_bool s of (ok, s', b) \<Rightarrow> Some (ok, s', Bool_value (the b)))"
| "attempt strict strtod array_parse object_parse Null_variant s =
     (case parse_null strict s of (ok, s') \<Rightarrow> Some (ok, s', Null_value))"
| "attempt strict strtod array_parse object_parse Array_variant s =
     (case peek s of (s', c) \<Rightarrow>
        if c = Some (CHR ''['')
        then map_option (\<lambda>(ok, s'', a). (ok, s'', Array_value a)) (array_parse s')
        else Some (False, s', Array_value []))"
| "attempt strict strtod array_parse object_parse Object_variant s =
     map_option (\<lambda>(ok, s', ob). (ok, s', Object_value ob)) (object_parse s)"

text \<open>The first variant of the list that succeeds; each try starts on the stream the
  failed try before it has left. When none succeeds the value keeps what \<open>reset\<close>
  left of it.\<close>

fun first_success :: "(variant \<Rightarrow> istream \<Rightarrow> 'n value_result) \<Rightarrow> variant list \<Rightarrow> istream
     \<Rightarrow> 'n Value \<Rightarrow> 'n value_result" where
  "first_success try [] s val = Some (False, s, reset val)"
| "first_success try (v # vs) s val =
     (case try v s of
        None \<Rightarrow> None
      | Some (ok, s', bound) \<Rightarrow> if ok then Some (True, s', bound) else first_success try vs s' val)"

definition Value_parse_in_order :: "bool \<Rightarrow> (string \<Rightarrow> 'n option) \<Rightarrow> (istream \<Rightarrow> 'n array_result)
     \<Rightarrow> (istream \<Rightarrow> 'n object_result) \<Rightarrow> istream \<Rightarrow> 'n Value \<Rightarrow> 'n value_result" where
  "Value_parse_in_order strict strtod array_parse object_parse input val =
     first_success (attempt strict strtod array_parse object_parse)
       [String_variant, Number_variant, Boolean_variant, Null_variant, Array_variant,
        Object_variant] input val"

subsection \<open>C4: objects whose entries are in ascending key order\<close>

text \<open>Every object inside a value lists its keys in strictly ascending order.\<close>

fun objects_sorted :: "'n Value \<Rightarrow> bool" where
  "objects_sorted (Object_value kv) =
     (sorted_wrt (<) (map fst kv) \<and> list_all (\<lambda>i. objects_sorted (snd i)) kv)"
| "objects_sorted (Array_value values) = list_all objects_sorted values"
| "objects_sorted v = True"

subsection \<open>C1: values that survive being written and read again\<close>

text \<open>The characters stage 2 of the number extraction can accumulate.\<close>

definition float_char :: "char \<Rightarrow> bool" where
  "float_char c = (is_digit c \<or> is_sign c \<or> c = CHR ''.'' \<or> c = CHR ''e'' \<or> c = CHR ''E'')"

text \<open>A number is read back when the extraction takes the whole of its text and the
  conversion of the accumulated field returns the number.\<close>

definition number_read_back :: "(string \<Rightarrow> 'n option) \<Rightarrow> ('n \<Rightarrow> string) \<Rightarrow> 'n \<Rightarrow> bool" where
  "number_read_back strtod num_put n =
     (case extract_float (num_put n) of
        (field, rest) \<Rightarrow> rest = [] \<and> field \<noteq> [] \<and> strtod field = Some n)"

text \<open>A character that \<open>stream_string\<close> does not write as a \<^verbatim>\<open>\u\<close> escape: it is not
  below 32 as a plain \<^verbatim>\<open>char\<close>, or it is one of the five control characters with an
  escape of their own.\<close>

definition char_read_back :: "bool \<Rightarrow> char \<Rightarrow> bool" where
  "char_read_back char_signed c =
     (\<not> int_of_char char_signed c < 32
      \<or> c = CHR 0x08 \<or> c = CHR 0x0C \<or> c = CHR 0x0A \<or> c = CHR 0x0D \<or> c = CHR 0x09)"

text \<open>A value all of whose numbers, strings and keys are read back; a value of no type
  is not.\<close>

fun read_back :: "(string \<Rightarrow> 'n option) \<Rightarrow> ('n \<Rightarrow> string) \<Rightarrow> bool \<Rightarrow> 'n Value \<Rightarrow> bool" where
  "read_back strtod num_put char_signed (Number_value n) = number_read_back strtod num_put n"
| "read_back strtod num_put char_signed (String_value s) = list_all (char_read_back char_signed) s"
| "read_back strtod num_put char_signed (Bool_value b) = True"
| "read_back strtod num_put char_signed Null_value = True"
| "read_back strtod num_put char_signed (Array_value values) =
     list_all (read_back strtod num_put char_signed) values"
| "read_back strtod num_put char_signed (Object_value kv) =
     list_all (\<lambda>i. list_all (char_read_back char_signed) (fst i)
                   \<and> read_back strtod num_put char_signed (snd i)) kv"
| "read_back strtod num_put char_signed Invalid_value = False"

text \<open>A budget that is enough to parse the text of a value.\<close>

fun fuel_for :: "'n Value \<Rightarrow> nat" where
  "fuel_for (Array_value values) = Suc (Suc (length values + sum_list (map fuel_for values)))"
| "fuel_for (Object_value kv) =
     Suc (Suc (length kv + sum_list (map (\<lambda>i. fuel_for (snd i)) kv)))"
| "fuel_for v = 1"

text \<open>The stream after the text of a value has been read: reading a number up to the
  end of the buffer sets \<^verbatim>\<open>eofbit\<close>.\<close>

definition stream_after :: "'n Value \<Rightarrow> string \<Rightarrow> string \<Rightarrow> istream" where
  "stream_after v pre rest =
     (if value_type v = NUMBER \<and> rest = [] then (stream_at pre rest)\<lparr>eofbit := True\<rparr>
      else stream_at pre rest)"

text \<open>What may follow the text of a value: nothing, or one of the characters that follow
  a value inside an array or an object.\<close>

definition value_end :: "string \<Rightarrow> bool" where
  "value_end rest =
     (case rest of [] \<Rightarrow> True | c # _ \<Rightarrow> c = CHR '','' \<or> c = CHR '']'' \<or> c = CHR ''}'')"

subsection \<open>Progress of the parsers\<close>

text \<open>\<open>advanced s s'\<close>: the stream \<open>s'\<close> has the buffer of \<open>s\<close> and a read position that is
  not before that of \<open>s\<close> and not beyond the end of the buffer.\<close>

definition advanced :: "istream \<Rightarrow> istream \<Rightarrow> bool" where
  "advanced s s' = (buf s' = buf s \<and> gpos s \<le> gpos s' \<and> gpos s' \<le> length (buf s))"

text \<open>The number of characters not yet read.\<close>

definition unread :: "istream \<Rightarrow> nat" where
  "unread s = length (buf s) - gpos s"

subsection \<open>C10: what a string literal decodes to\<close>

text \<open>The decoding of section 4.2 of the specification, written on the characters that
  follow the opening delimiter and without any stream: the characters up to the first
  delimiter that no backslash precedes, each escape replaced by what it stands for, and
  with them the characters left after that delimiter. Characters with no closing
  delimiter decode to nothing.\<close>

fun decode :: "char \<Rightarrow> string \<Rightarrow> (string \<times> string) option" where
  "decode delimiter [] = None"
| "decode delimiter (c # cs) =
     (if c = delimiter then Some ([], cs)
      else if c = backslash then
        (case cs of
           [] \<Rightarrow> None
         | x # xs \<Rightarrow>
             (case decode delimiter xs of
                None \<Rightarrow> None
              | Some (v, rest) \<Rightarrow> Some (unescape delimiter x @ v, rest)))
      else (case decode delimiter cs of
              None \<Rightarrow> None
            | Some (v, rest) \<Rightarrow> Some (c # v, rest)))"

text \<open>The characters of a literal read up to and with its closing delimiter, when
  \<open>rest\<close> is what is left of \<open>chars\<close> after it.\<close>

definition literal_end :: "string \<Rightarrow> string \<Rightarrow> string" where
  "literal_end chars rest = take (length chars - length rest) chars"

subsection \<open>C9: the XML of a node below the root\<close>

text \<open>The rendering of section 4.7 of the specification written out for a node that is
  not the root of the document. None of these functions has a header or an attribute
  string among its arguments. \<open>element\<close> is an open tag short of its closing bracket:
  the element of the node's type with the name of the member; \<open>inner_node\<close> closes it at
  once, with \<^verbatim>\<open>>\<close>, or with \<^verbatim>\<open> />\<close> for a null.\<close>

definition jsonx_element :: "char \<Rightarrow> string" where
  "jsonx_element type =
     (if type = CHR ''o'' then ''json:object''
      else if type = CHR ''a'' then ''json:array''
      else if type = CHR ''s'' then ''json:string''
      else if type = CHR ''n'' then ''json:number''
      else if type = CHR ''b'' then ''json:boolean''
      else ''json:null'')"

definition element :: "format \<Rightarrow> char \<Rightarrow> string \<Rightarrow> string" where
  "element fmt type name =
     (case fmt of
        jsonx \<Rightarrow>
          ''<'' @ jsonx_element type
            @ (if name = [] then [] else '' name='' @ [dquote] @ escape_string name @ [dquote])
      | jxml \<Rightarrow>
          ''<j son='' @ [dquote] @ [type]
            @ (if name = [] then [] else '':'' @ escape_string name) @ [dquote])"

definition element_end :: "format \<Rightarrow> char \<Rightarrow> string" where
  "element_end fmt type =
     (case fmt of jsonx \<Rightarrow> ''</'' @ jsonx_element type @ ''>'' | jxml \<Rightarrow> ''</j>'')"

definition indent :: "nat \<Rightarrow> string" where
  "indent depth = replicate depth (CHR 0x09)"

fun inner_node :: "('n \<Rightarrow> string) \<Rightarrow> format \<Rightarrow> nat \<Rightarrow> string \<Rightarrow> 'n Value \<Rightarrow> string" where
  "inner_node num_put fmt depth name (Object_value kv) =
     indent depth @ element fmt (CHR ''o'') name @ ''>'' @ [CHR 0x0A]
       @ concat (map (\<lambda>it. inner_node num_put fmt (Suc depth) (fst it) (snd it)) kv)
       @ indent depth @ element_end fmt (CHR ''o'') @ [CHR 0x0A]"
| "inner_node num_put fmt depth name (Array_value values) =
     indent depth @ element fmt (CHR ''a'') name @ ''>'' @ [CHR 0x0A]
       @ concat (map (\<lambda>it. inner_node num_put fmt (Suc depth) [] it) values)
       @ indent depth @ element_end fmt (CHR ''a'') @ [CHR 0x0A]"
| "inner_node num_put fmt depth name (String_value s) =
     indent depth @ element fmt (CHR ''s'') name @ ''>'' @ escape_tag s
       @ element_end fmt (CHR ''s'') @ [CHR 0x0A]"
| "inner_node num_put fmt depth name (Number_value n) =
     indent depth @ element fmt (CHR ''n'') name @ ''>'' @ num_put n
       @ element_end fmt (CHR ''n'') @ [CHR 0x0A]"
| "inner_node num_put fmt depth name (Bool_value b) =
     indent depth @ element fmt (CHR ''b'') name @ ''>'' @ (if b then ''true'' else ''false'')
       @ element_end fmt (CHR ''b'') @ [CHR 0x0A]"
| "inner_node num_put fmt depth name Null_value =
     indent depth @ element fmt (CHR ''0'') name @ '' />'' @ [CHR 0x0A]"
| "inner_node num_put fmt depth name Invalid_value =
     indent depth @ element fmt (CHR ''0'') name @ '' />'' @ [CHR 0x0A]"

section \<open>Facts about the stream and the token matcher\<close>

lemma istream_of_stream_at: "istream_of text = stream_at [] text"
  by (simp add: istream_of_def stream_at_def)

lemma good_stream_at [simp]: "good (stream_at pre rest)"
  and fail_stream_at [simp]: "\<not> fail (stream_at pre rest)"
  and eofbit_stream_at [simp]: "\<not> eofbit (stream_at pre rest)"
  and remaining_stream_at [simp]: "remaining (stream_at pre rest) = rest"
  by (simp_all add: stream_at_def good_def fail_def remaining_def)

lemma sentry_stream_at [simp]: "sentry (stream_at pre rest) = (True, stream_at pre rest)"
  by (simp add: sentry_def)

lemma sgetc_stream_at [simp]:
  "sgetc (stream_at pre rest) = (case rest of [] \<Rightarrow> None | c # _ \<Rightarrow> Some c)"
  by (simp add: sgetc_def stream_at_def nth_append split: list.splits)

lemma get_stream_at [simp]:
  "get (stream_at pre (c # rest)) ch = (stream_at (pre @ [c]) rest, c)"
  by (simp add: get_def) (simp add: stream_at_def)

lemma peek_stream_at [simp]:
  "peek (stream_at pre (c # rest)) = (stream_at pre (c # rest), Some c)"
  by (simp add: peek_def)

lemma putback_stream_at [simp]:
  "pre \<noteq> [] \<Longrightarrow> last pre = c \<Longrightarrow>
     putback (stream_at pre rest) c = stream_at (butlast pre) (c # rest)"
  by (cases pre rule: rev_cases)
     (simp_all add: putback_def sentry_def good_def stream_at_def nth_append)

lemma ws_stream_at:
  assumes "\<forall>c \<in> set w. isspace c" and "\<not> isspace c"
  shows "ws (stream_at pre (w @ c # rest)) = stream_at (pre @ w) (c # rest)"
proof -
  have "takeWhile isspace (w @ c # rest) = w"
    using assms by (simp add: takeWhile_tail)
  then show ?thesis
    by (simp add: ws_def) (simp add: stream_at_def)
qed

lemma ws_stream_at_nospace [simp]:
  "\<not> isspace c \<Longrightarrow> ws (stream_at pre (c # rest)) = stream_at pre (c # rest)"
  using ws_stream_at [of "[]" c pre rest] by simp

lemma putback_all_stream_at:
  "putback_all (stream_at (pre @ rev matched) rest) matched = stream_at pre (rev matched @ rest)"
proof (induction matched arbitrary: rest)
  case Nil
  show ?case by simp
next
  case (Cons c cs)
  show ?case using Cons.IH [of "c # rest"] by (simp add: butlast_append)
qed

lemma match_loop_mismatch:
  assumes "c \<noteq> d"
  shows "match_loop matched (q @ d # p') ch (stream_at (pre @ rev matched) (q @ c # rest))
           = (False, stream_at pre (rev matched @ q @ c # rest))"
proof (induction q arbitrary: matched ch)
  case Nil
  have "putback_all (stream_at ((pre @ rev matched)) (c # rest)) matched
          = stream_at pre (rev matched @ c # rest)"
    by (rule putback_all_stream_at)
  then show ?case using assms by (simp add: butlast_append)
next
  case (Cons x q)
  have "match_loop (x # matched) (q @ d # p') x (stream_at (pre @ rev (x # matched)) (q @ c # rest))
          = (False, stream_at pre (rev (x # matched) @ q @ c # rest))"
    by (rule Cons.IH)
  then show ?case by simp
qed

lemma match_loop_success:
  "match_loop matched p ch (stream_at pre (p @ rest)) = (True, stream_at (pre @ p) rest)"
  by (induction p arbitrary: matched ch pre) simp_all


lemma match_success:
  assumes "\<forall>c \<in> set w. isspace c" and "p \<noteq> []" and "\<not> isspace (hd p)"
  shows "match p (stream_at pre (w @ p @ rest)) = (True, stream_at (pre @ w @ p) rest)"
proof -
  obtain c p' where p: "p = c # p'"
    using assms(2) by (cases p) auto
  have "ws (stream_at pre (w @ c # p' @ rest)) = stream_at (pre @ w) (c # p' @ rest)"
    using assms(1,3) p by (intro ws_stream_at) auto
  then show ?thesis
    using match_loop_success [of "[]" p "CHR 0x00" "pre @ w" rest] p by (simp add: match_def)
qed

lemma match_mismatch:
  assumes "\<forall>x \<in> set w. isspace x" and "\<not> isspace (hd (q @ [c]))" and "c \<noteq> d"
  shows "match (q @ d # p') (stream_at pre (w @ q @ c # rest))
           = (False, stream_at (pre @ w) (q @ c # rest))"
proof -
  obtain x xs where q: "q @ c # rest = x # xs" and x: "\<not> isspace x"
    using assms(2) by (cases q) auto
  have "ws (stream_at pre (w @ x # xs)) = stream_at (pre @ w) (x # xs)"
    using assms(1) x by (intro ws_stream_at) auto
  then have "ws (stream_at pre (w @ q @ c # rest)) = stream_at (pre @ w) (q @ c # rest)"
    using q by simp
  then show ?thesis
    using match_loop_mismatch [OF assms(3), of "[]" q p' "CHR 0x00" "pre @ w" rest]
    by (simp add: match_def)
qed

text \<open>The two cases the parsers of jsonxx.cc meet when they probe for a one-character token
  or for the first character of a keyword.\<close>

lemma match_first_char_differs:
  assumes "\<forall>x \<in> set w. isspace x" and "\<not> isspace c" and "c \<noteq> d"
  shows "match (d # p') (stream_at pre (w @ c # rest)) = (False, stream_at (pre @ w) (c # rest))"
  using match_mismatch [of w "[]" c d p' pre rest] assms by simp

lemma match_first_char_differs_nospace [simp]:
  "\<not> isspace c \<Longrightarrow> c \<noteq> d \<Longrightarrow>
     match (d # p') (stream_at pre (c # rest)) = (False, stream_at pre (c # rest))"
  using match_first_char_differs [of "[]" c d p' pre rest] by simp

lemma match_char [simp]:
  "\<not> isspace c \<Longrightarrow> match [c] (stream_at pre (c # rest)) = (True, stream_at (pre @ [c]) rest)"
  using match_success [of "[]" "[c]" pre rest] by simp

section \<open>Facts about the string parser\<close>

text \<open>The loop only ever appends to the value slot.\<close>

lemma parse_string_loop_append:
  "parse_string_loop d s ch (slot @ v) =
     (case parse_string_loop d s ch v of (s', ch', v') \<Rightarrow> (s', ch', slot @ v'))"
proof (induction d s ch v rule: parse_string_loop.induct)
  case (1 d s ch v)
  show ?case
  proof (cases "\<not> eofbit s \<and> good s")
    case False
    then have "\<And>w. parse_string_loop d s ch w = (s, ch, w)"
      by (subst parse_string_loop.simps) auto
    then show ?thesis by simp
  next
    case True
    obtain s1 ch1 where g1: "get s ch = (s1, ch1)" by (cases "get s ch")
    obtain s2 ch2 where g2: "get s1 ch1 = (s2, ch2)" by (cases "get s1 ch1")
    show ?thesis
    proof (cases "ch1 = d")
      case d: True
      then show ?thesis using True g1
        by (simp add: parse_string_loop.simps [of d s])
    next
      case nd: False
      show ?thesis
      proof (cases "ch1 = backslash")
        case b: True
        have "parse_string_loop d s2 ch2 (slot @ (v @ unescape d ch2)) =
               (case parse_string_loop d s2 ch2 (v @ unescape d ch2) of
                  (s', ch', v') \<Rightarrow> (s', ch', slot @ v'))"
          using "1.IH"(1) [OF True g1 [symmetric] nd b g2 [symmetric]] by simp
        then show ?thesis using True g1 g2 nd b
          by (simp add: parse_string_loop.simps [of d s])
      next
        case nb: False
        have "parse_string_loop d s1 ch1 (slot @ (v @ [ch1])) =
               (case parse_string_loop d s1 ch1 (v @ [ch1]) of
                  (s', ch', v') \<Rightarrow> (s', ch', slot @ v'))"
          using "1.IH"(2) [OF True g1 [symmetric] nd nb] by simp
        then show ?thesis using True g1 nd nb
          by (simp add: parse_string_loop.simps [of d s])
      qed
    qed
  qed
qed

lemma parse_string_body_append:
  "parse_string_body d s ch slot =
     (case parse_string_body d s ch [] of (ok, s', v) \<Rightarrow> (ok, s', slot @ v))"
  using parse_string_loop_append [of d s ch slot "[]"]
  by (simp add: parse_string_body_def split: prod.splits)


section \<open>The key order of parsed objects\<close>

text \<open>\<open>map_assign\<close> keeps the keys strictly ascending, and so do the loops: the
  invariant is carried through \<open>Object_loop\<close> and \<open>Array_loop\<close> for any value parser whose
  results have the property, and then through \<open>Value_parse\<close> by induction on its budget.\<close>

lemma ball_keys_map_assign:
  "(\<forall>x \<in> set (map_assign k v m). P (fst x)) = (P k \<and> (\<forall>x \<in> set m. P (fst x)))"
proof (induction m)
  case Nil
  show ?case by simp
next
  case (Cons e m)
  obtain k' v' where e: "e = (k', v')" by (cases e)
  show ?case
    using Cons.IH e by (cases "k < k'"; cases "k = k'") auto
qed

lemma sorted_map_assign:
  "sorted_wrt (<) (map fst m) \<Longrightarrow> sorted_wrt (<) (map fst (map_assign k v m))"
proof (induction m)
  case Nil
  show ?case by simp
next
  case (Cons e m)
  obtain k' v' where e: "e = (k', v')" by (cases e)
  have tail: "sorted_wrt (<) (map fst (map_assign k v m))"
    using Cons by simp
  have above: "\<forall>x \<in> set m. k' < fst x"
    using Cons.prems e by simp
  show ?case
  proof (cases "k < k'")
    case True
    then show ?thesis using Cons.prems e by auto
  next
    case False
    show ?thesis
    proof (cases "k = k'")
      case True
      then show ?thesis using Cons.prems e by simp
    next
      case ne: False
      then have "k' < k" using False by simp
      then have "\<forall>x \<in> set (map_assign k v m). k' < fst x"
        using above by (simp add: ball_keys_map_assign)
      then show ?thesis using tail e False ne by simp
    qed
  qed
qed

lemma list_all_map_assign:
  "list_all (\<lambda>i. P (snd i)) m \<Longrightarrow> P v \<Longrightarrow> list_all (\<lambda>i. P (snd i)) (map_assign k v m)"
  by (induction m) auto

lemma Object_loop_invariant:
  assumes vp: "\<And>s s' v. value_parse s Invalid_value = Some (True, s', v) \<Longrightarrow> P v"
  shows "Object_loop fuel strict value_parse s m = Some (b, s', m') \<Longrightarrow>
         sorted_wrt (<) (map fst m) \<Longrightarrow> list_all (\<lambda>i. P (snd i)) m \<Longrightarrow>
         sorted_wrt (<) (map fst m') \<and> list_all (\<lambda>i. P (snd i)) m'"
proof (induction fuel arbitrary: s m)
  case 0
  then show ?case by simp
next
  case (Suc fuel)
  obtain ok1 s1 key where a: "parse_string strict s [] = (ok1, s1, key)"
    by (cases "parse_string strict s []")
  obtain s1p c where p: "peek s1 = (s1p, c)" by (cases "peek s1")
  obtain ok2 s2 where b: "match '':'' s1 = (ok2, s2)" by (cases "match '':'' s1")
  show ?case
  proof (cases "ok1 \<and> ok2")
    case False
    then show ?thesis using Suc.prems a p b
      by (auto simp: Object_loop_body_def split: if_splits)
  next
    case True
    show ?thesis
    proof (cases "value_parse s2 Invalid_value")
      case None
      then show ?thesis using Suc.prems a b True by (simp add: Object_loop_body_def)
    next
      case (Some r)
      obtain ok3 s3 v where r: "r = (ok3, s3, v)" by (cases r)
      obtain ok4 s4 where d: "match '','' s3 = (ok4, s4)" by (cases "match '','' s3")
      show ?thesis
      proof (cases ok3)
        case False
        then show ?thesis using Suc.prems a b True Some r by (simp add: Object_loop_body_def)
      next
        case ok3: True
        then have "P v" using vp Some r by simp
        then have inv: "sorted_wrt (<) (map fst (map_assign key v m))"
          "list_all (\<lambda>i. P (snd i)) (map_assign key v m)"
          using Suc.prems(2,3) by (simp_all add: sorted_map_assign list_all_map_assign)
        show ?thesis
        proof (cases ok4)
          case True
          then have "Object_loop fuel strict value_parse s4 (map_assign key v m) = Some (b, s', m')"
            using Suc.prems(1) a b \<open>ok1 \<and> ok2\<close> Some r ok3 d by (simp add: Object_loop_body_def)
          then show ?thesis using Suc.IH inv by blast
        next
          case False
          then show ?thesis using Suc.prems(1) a b \<open>ok1 \<and> ok2\<close> Some r ok3 d inv
            by (auto simp: Object_loop_body_def)
        qed
      qed
    qed
  qed
qed

lemma Array_loop_invariant:
  assumes vp: "\<And>s s' v. value_parse s Invalid_value = Some (True, s', v) \<Longrightarrow> P v"
  shows "Array_loop fuel value_parse s acc = Some (s', acc') \<Longrightarrow>
         list_all P acc \<Longrightarrow> list_all P acc'"
proof (induction fuel arbitrary: s acc)
  case 0
  then show ?case by simp
next
  case (Suc fuel)
  show ?case
  proof (cases "value_parse s Invalid_value")
    case None
    then show ?thesis using Suc.prems by (simp add: Array_loop_body_def)
  next
    case (Some r)
    obtain ok1 s1 v where r: "r = (ok1, s1, v)" by (cases r)
    obtain ok2 s2 where d: "match '','' s1 = (ok2, s2)" by (cases "match '','' s1")
    show ?thesis
    proof (cases ok1)
      case False
      then show ?thesis using Suc.prems Some r by (simp add: Array_loop_body_def)
    next
      case True
      then have pv: "P v" using vp Some r by simp
      show ?thesis
      proof (cases ok2)
        case ok2: True
        then have "Array_loop fuel value_parse s2 (acc @ [v]) = Some (s', acc')"
          using Suc.prems(1) Some r True d by (simp add: Array_loop_body_def)
        then show ?thesis using Suc.IH [of s2 "acc @ [v]"] pv Suc.prems(2) by simp
      next
        case False
        then show ?thesis using Suc.prems Some r True d pv by (auto simp: Array_loop_body_def)
      qed
    qed
  qed
qed

lemma Object_parse_body_invariant:
  assumes vp: "\<And>s s' v. value_parse s Invalid_value = Some (True, s', v) \<Longrightarrow> P v"
    and res: "Object_parse_body (Object_loop fuel strict value_parse) s = Some (ok, s', m)"
  shows "sorted_wrt (<) (map fst m) \<and> list_all (\<lambda>i. P (snd i)) m"
proof -
  obtain ok1 s1 where a: "match ''{'' s = (ok1, s1)" by (cases "match ''{'' s")
  obtain ok2 s2 where b: "match ''}'' s1 = (ok2, s2)" by (cases "match ''}'' s1")
  show ?thesis
  proof (cases "ok1 \<and> \<not> ok2")
    case False
    then show ?thesis using res a b by (auto simp: Object_parse_body_def split: if_splits)
  next
    case True
    then obtain go s3 m3 where l: "Object_loop fuel strict value_parse s2 [] = Some (go, s3, m3)"
      using res a b by (auto simp: Object_parse_body_def split: option.splits)
    have inv: "sorted_wrt (<) (map fst m3) \<and> list_all (\<lambda>i. P (snd i)) m3"
      using Object_loop_invariant [where value_parse = value_parse and P = P, OF vp l] by simp
    obtain ok3 s4 where c: "match ''}'' s3 = (ok3, s4)" by (cases "match ''}'' s3")
    have "m = m3" using res a b True l c
      by (auto simp: Object_parse_body_def split: if_splits)
    then show ?thesis using inv by simp
  qed
qed

lemma Array_parse_body_invariant:
  assumes vp: "\<And>s s' v. value_parse s Invalid_value = Some (True, s', v) \<Longrightarrow> P v"
    and res: "Array_parse_body (Array_loop fuel value_parse) s = Some (ok, s', a)"
  shows "list_all P a"
proof -
  obtain ok1 s1 where a: "match ''['' s = (ok1, s1)" by (cases "match ''['' s")
  show ?thesis
  proof (cases ok1)
    case False
    then show ?thesis using res a by (auto simp: Array_parse_body_def)
  next
    case True
    then obtain s2 vs where l: "Array_loop fuel value_parse s1 [] = Some (s2, vs)"
      using res a by (auto simp: Array_parse_body_def split: option.splits)
    have inv: "list_all P vs"
      using Array_loop_invariant [where value_parse = value_parse and P = P, OF vp l] by simp
    obtain ok2 s3 where c: "match '']'' s2 = (ok2, s3)" by (cases "match '']'' s2")
    have "a = vs" using res a True l c by (auto simp: Array_parse_body_def)
    then show ?thesis using inv by simp
  qed
qed

lemma Value_parse_objects_sorted:
  "Value_parse fuel strict strtod s val = Some (True, s', v) \<Longrightarrow> objects_sorted v"
proof (induction fuel arbitrary: s val s' v)
  case 0
  then show ?case by simp
next
  case (Suc fuel)
  have vp: "\<And>s s' v. Value_parse fuel strict strtod s Invalid_value = Some (True, s', v)
              \<Longrightarrow> objects_sorted v"
    using Suc.IH by blast
  obtain ok1 s1 str where a: "parse_string strict s [] = (ok1, s1, str)"
    by (cases "parse_string strict s []")
  obtain ok2 s2 n where b: "parse_number strtod s1 = (ok2, s2, n)"
    by (cases "parse_number strtod s1")
  obtain ok3 s3 bv where c: "parse_bool s2 = (ok3, s3, bv)"
    by (cases "parse_bool s2")
  obtain ok4 s4 where d: "parse_null strict s3 = (ok4, s4)"
    by (cases "parse_null strict s3")
  obtain s5 ch where e: "peek s4 = (s5, ch)"
    by (cases "peek s4")
  show ?case
  proof (cases "ok1 \<or> ok2 \<or> ok3 \<or> ok4")
    case True
    then show ?thesis using Suc.prems a b c d
      by (auto simp: Value_parse_body_def split: if_splits)
  next
    case False
    define ar where "ar = (if ch = Some (CHR ''['')
        then Array_parse_body (Array_loop fuel (Value_parse fuel strict strtod)) s5
        else Some (False, s5, []))"
    from Suc.prems False a b c d e obtain ok5 s6 arr where ar: "ar = Some (ok5, s6, arr)"
      by (auto simp: Value_parse_body_def ar_def split: option.splits if_splits)
    show ?thesis
    proof (cases ok5)
      case True
      then have "ch = Some (CHR ''['')" using ar by (auto simp: ar_def split: if_splits)
      then have "Array_parse_body (Array_loop fuel (Value_parse fuel strict strtod)) s5
                   = Some (ok5, s6, arr)"
        using ar by (simp add: ar_def)
      then have "list_all objects_sorted arr"
        using Array_parse_body_invariant [of "Value_parse fuel strict strtod" objects_sorted] vp
        by blast
      moreover have "v = Array_value arr"
        using Suc.prems False a b c d e ar True
        by (auto simp: Value_parse_body_def ar_def split: option.splits if_splits)
      ultimately show ?thesis by simp
    next
      case no5: False
      then obtain ok6 s7 ob where
        ob: "Object_parse_body (Object_loop fuel strict (Value_parse fuel strict strtod)) s6
               = Some (ok6, s7, ob)"
        and v: "v = Object_value ob"
        using Suc.prems False a b c d e ar
        by (auto simp: Value_parse_body_def ar_def split: option.splits if_splits)
      have "sorted_wrt (<) (map fst ob) \<and> list_all (\<lambda>i. objects_sorted (snd i)) ob"
        using Object_parse_body_invariant [of "Value_parse fuel strict strtod" objects_sorted,
            OF _ ob] vp by blast
      then show ?thesis using v by simp
    qed
  qed
qed

section \<open>Writing and reading again\<close>

subsection \<open>The number extraction\<close>

text \<open>If the extraction takes the whole of a text, it takes the same characters and
  accumulates the same field when the text is followed by a character it cannot
  accumulate.\<close>

lemma is_digit_zero [simp]: "is_digit (CHR ''0'')"
  by (simp add: is_digit_def)

lemma not_float_charD:
  assumes "\<not> float_char c"
  shows "\<not> is_digit c" "\<not> is_sign c" "c \<noteq> CHR ''0''" "c \<noteq> CHR ''.''" "c \<noteq> CHR ''e''"
    "c \<noteq> CHR ''E''"
  using assms by (auto simp: float_char_def)



lemma float_loop_append:
  assumes "r = [] \<or> \<not> float_char (hd r)"
  shows "float_loop fm fd fs t = (f, []) \<Longrightarrow> float_loop fm fd fs (t @ r) = (f, r)"
proof (induction fm fd fs t arbitrary: f rule: float_loop.induct)
  case (1 fm fd fs)
  then show ?case using assms by (cases r) (auto dest: not_float_charD)
next
  case (2 fm fd fs c cs)
  show ?case
  proof (cases "is_digit c")
    case True
    then obtain x where x: "float_loop True fd fs cs = (x, [])" and f: "f = c # x"
      using "2.prems" by (auto split: prod.splits)
    then show ?thesis using "2.IH"(1) [OF True x] True by simp
  next
    case nd: False
    show ?thesis
    proof (cases "c = CHR ''.'' \<and> \<not> fd \<and> \<not> fs")
      case True
      then obtain x where x: "float_loop fm True fs cs = (x, [])" and f: "f = c # x"
        using "2.prems" nd by (auto split: prod.splits)
      then show ?thesis using "2.IH"(2) [OF nd True x] True nd by simp
    next
      case np: False
      show ?thesis
      proof (cases "(c = CHR ''e'' \<or> c = CHR ''E'') \<and> \<not> fs \<and> fm")
        case False
        then show ?thesis using "2.prems" nd np by (auto split: if_splits)
      next
        case e: True
        show ?thesis
        proof (cases cs)
          case Nil
          then have f: "f = ''e''" using "2.prems" nd np e by (auto split: if_splits)
          show ?thesis
          proof (cases r)
            case Nil
            then show ?thesis using \<open>cs = []\<close> "2.prems" by simp
          next
            case (Cons d ds)
            then have "\<not> float_char d" using assms by simp
            then have "\<not> is_sign d" "float_loop fm fd True (d # ds) = ([], d # ds)"
              by (simp_all add: not_float_charD)
            then show ?thesis using \<open>cs = []\<close> Cons f nd np e by (auto split: if_splits)
          qed
        next
          case (Cons d ds)
          show ?thesis
          proof (cases "is_sign d")
            case True
            then obtain x where x: "float_loop fm fd True ds = (x, [])"
              and f: "f = CHR ''e'' # d # x"
              using "2.prems" nd np e Cons by (auto split: prod.splits if_splits)
            then show ?thesis using "2.IH"(3) [OF nd np e Cons True x] nd np e Cons True
              by (auto split: if_splits)
          next
            case False
            then obtain x where x: "float_loop fm fd True (d # ds) = (x, [])"
              and f: "f = CHR ''e'' # x"
              using "2.prems" nd np e Cons by (auto split: prod.splits if_splits)
            then show ?thesis using "2.IH"(4) [OF nd np e Cons False x] nd np e Cons False
              by (auto split: if_splits)
          qed
        qed
      qed
    qed
  qed
qed

lemma float_sign_append:
  assumes "r = [] \<or> \<not> float_char (hd r)"
  shows "float_sign (t @ r) = (fst (float_sign t), snd (float_sign t) @ r)"
proof (cases t)
  case Nil
  then show ?thesis using assms by (cases r) (auto dest: not_float_charD)
next
  case (Cons c cs)
  then show ?thesis by simp
qed

lemma float_zeros_append:
  assumes "r = [] \<or> \<not> float_char (hd r)"
  shows "float_zeros (t @ r) = (fst (float_zeros t), snd (float_zeros t) @ r)"
proof (cases t)
  case Nil
  then show ?thesis using assms
    by (cases r) (auto simp: float_zeros_def dest: not_float_charD)
next
  case (Cons c cs)
  have r: "dropWhile (\<lambda>d. d = CHR ''0'') r = r"
    using assms by (cases r) (auto dest: not_float_charD)
  have d: "dropWhile (\<lambda>d. d = CHR ''0'') ((c # cs) @ r) = dropWhile (\<lambda>d. d = CHR ''0'') (c # cs) @ r"
    unfolding dropWhile_append using r by simp
  show ?thesis
  proof (cases "c = CHR ''0''")
    case True
    then show ?thesis using d Cons by (simp add: float_zeros_def)
  next
    case False
    then show ?thesis using Cons by (simp add: float_zeros_def)
  qed
qed

lemma extract_float_append:
  assumes "r = [] \<or> \<not> float_char (hd r)" and "extract_float t = (f, [])"
  shows "extract_float (t @ r) = (f, r)"
proof -
  obtain sg t1 where a: "float_sign t = (sg, t1)" by (cases "float_sign t")
  obtain z t2 where b: "float_zeros t1 = (z, t2)" by (cases "float_zeros t1")
  obtain x t3 where c: "float_loop (z \<noteq> []) False False t2 = (x, t3)"
    by (cases "float_loop (z \<noteq> []) False False t2")
  have t3: "t3 = []" and f: "f = sg @ z @ x"
    using assms(2) a b c by (simp_all add: extract_float_def)
  have "float_loop (z \<noteq> []) False False (t2 @ r) = (x, r)"
    using float_loop_append [OF assms(1)] c t3 by simp
  then show ?thesis
    using a b f float_sign_append [OF assms(1), of t] float_zeros_append [OF assms(1), of t1]
    by (simp add: extract_float_def)
qed

lemma extract_float_none:
  "\<not> float_char c \<Longrightarrow> extract_float (c # r) = ([], c # r)"
  by (simp add: extract_float_def float_zeros_def not_float_charD)

lemma extract_float_first:
  assumes "extract_float (c # cs) = (f, [])"
  shows "float_char c"
proof (rule ccontr)
  assume "\<not> float_char c"
  then have "extract_float (c # cs) = ([], c # cs)" by (rule extract_float_none)
  then show False using assms by simp
qed

lemma float_char_not_space: "float_char c \<Longrightarrow> \<not> isspace c"
  by (auto simp: float_char_def isspace_def is_digit_def is_sign_def less_eq_char_def)

lemma float_char_not_quote: "float_char c \<Longrightarrow> c \<noteq> dquote \<and> c \<noteq> squote"
  by (auto simp: float_char_def is_digit_def is_sign_def less_eq_char_def)

lemma not_float_char [simp]:
  "\<not> float_char (CHR '','')" "\<not> float_char (CHR '']'')" "\<not> float_char (CHR ''}'')"
  "\<not> float_char (CHR ''['')" "\<not> float_char (CHR ''{'')" "\<not> float_char (CHR ''t'')"
  "\<not> float_char (CHR ''f'')" "\<not> float_char (CHR ''n'')"
  by (simp_all add: float_char_def is_digit_def is_sign_def less_eq_char_def)

lemma not_isspace [simp]:
  "\<not> isspace (CHR '','')" "\<not> isspace (CHR '']'')" "\<not> isspace (CHR ''}'')"
  "\<not> isspace (CHR ''['')" "\<not> isspace (CHR ''{'')" "\<not> isspace (CHR ''t'')"
  "\<not> isspace (CHR ''f'')" "\<not> isspace (CHR ''n'')" "\<not> isspace dquote" "\<not> isspace (CHR '':'')"
  "isspace (CHR '' '')"
  by (simp_all add: isspace_def)

subsection \<open>The scalar parsers on a good stream\<close>

lemma value_end_no_float: "value_end rest \<Longrightarrow> rest = [] \<or> \<not> float_char (hd rest)"
  by (cases rest) (auto simp: value_end_def)

lemma extract_double_stream_at:
  assumes "\<not> isspace c"
  shows "extract_double strtod (stream_at pre (c # cs)) =
     (case extract_float (c # cs) of (field, rest) \<Rightarrow>
        let s2 = (stream_at pre (c # cs))\<lparr>gpos := length (pre @ c # cs) - length rest\<rparr>;
            v = (if field = [] then None else strtod field);
            s3 = (if rest = [] then s2\<lparr>eofbit := True\<rparr> else s2)
        in (if v = None then s3\<lparr>failbit := True\<rparr> else s3, v))"
proof -
  have "sentry_skipws (stream_at pre (c # cs)) = (True, stream_at pre (c # cs))"
    using assms by (simp add: sentry_skipws_def) (simp add: stream_at_def)
  then show ?thesis
    by (simp add: extract_double_def) (simp add: stream_at_def)
qed

lemma parse_number_fails:
  assumes "\<not> float_char c" and "\<not> isspace c"
  shows "parse_number strtod (stream_at pre (c # rest)) = (False, stream_at pre (c # rest), None)"
proof -
  have "extract_double strtod (stream_at pre (c # rest))
          = ((stream_at pre (c # rest))\<lparr>failbit := True\<rparr>, None)"
    using assms by (simp add: extract_double_stream_at extract_float_none) (simp add: stream_at_def)
  then show ?thesis using assms(2)
    by (simp add: parse_number_def) (simp add: stream_at_def fail_def clear_def)
qed

lemma parse_number_read_back:
  assumes "number_read_back strtod num_put n" and "value_end rest"
  shows "parse_number strtod (stream_at pre (num_put n @ rest))
           = (True, stream_after (Number_value n) (pre @ num_put n) rest, Some n)"
proof -
  obtain f where f: "extract_float (num_put n) = (f, [])" "f \<noteq> []" "strtod f = Some n"
    using assms(1) by (auto simp: number_read_back_def split: prod.splits)
  have "num_put n \<noteq> []"
    using f by (auto simp: extract_float_def float_zeros_def)
  then obtain c cs where t: "num_put n = c # cs" by (cases "num_put n") auto
  have c: "\<not> isspace c"
    using extract_float_first f(1) t float_char_not_space by metis
  have ex: "extract_float (c # cs @ rest) = (f, rest)"
    using extract_float_append [OF value_end_no_float [OF assms(2)] f(1)] t by simp
  have "extract_double strtod (stream_at pre (c # cs @ rest))
          = (stream_after (Number_value n) (pre @ c # cs) rest, Some n)"
    using f(2,3) by (simp add: extract_double_stream_at [OF c] ex)
      (simp add: stream_at_def stream_after_def)
  then show ?thesis using c t
    by (simp add: parse_number_def) (simp add: stream_at_def stream_after_def fail_def)
qed

lemma parse_string_fails:
  assumes "\<forall>x \<in> set w. isspace x" and "\<not> isspace c" and "c \<noteq> dquote" and "c \<noteq> squote"
  shows "parse_string strict (stream_at pre (w @ c # rest)) [] = (False, stream_at (pre @ w) (c # rest), [])"
  using match_first_char_differs [OF assms(1,2), of dquote "[]" pre rest] assms(3,4)
  by (simp add: parse_string_def)

lemma parse_bool_true:
  "parse_bool (stream_at pre (''true'' @ rest)) = (True, stream_at (pre @ ''true'') rest, Some True)"
  using match_success [of "[]" "''true''" pre rest] by (simp add: parse_bool_def)

lemma parse_bool_false:
  "parse_bool (stream_at pre (''false'' @ rest)) = (True, stream_at (pre @ ''false'') rest, Some False)"
  using match_success [of "[]" "''false''" pre rest]
    match_first_char_differs_nospace [of "CHR ''f''" "CHR ''t''" "''rue''" pre "''alse'' @ rest"]
  by (simp add: parse_bool_def)

lemma parse_bool_fails:
  assumes "\<not> isspace c" and "c \<noteq> CHR ''t''" and "c \<noteq> CHR ''f''"
  shows "parse_bool (stream_at pre (c # rest)) = (False, stream_at pre (c # rest), None)"
  using assms by (simp add: parse_bool_def)

lemma parse_null_null:
  "parse_null strict (stream_at pre (''null'' @ rest)) = (True, stream_at (pre @ ''null'') rest)"
  using match_success [of "[]" "''null''" pre rest] by (simp add: parse_null_def)

lemma parse_null_fails:
  assumes "\<not> isspace c" and "c \<noteq> CHR ''n''" and "c \<noteq> CHR '',''"
  shows "parse_null strict (stream_at pre (c # rest)) = (False, stream_at pre (c # rest))"
  using assms by (simp add: parse_null_def)

subsection \<open>Strings: reading what \<open>stream_string\<close> wrote\<close>

lemma parse_string_loop_step:
  "parse_string_loop d (stream_at pre (c # rest)) ch val =
     (if c = d then (stream_at (pre @ [c]) rest, c, val)
      else if c = backslash then
        (case get (stream_at (pre @ [c]) rest) c of
           (s2, ch2) \<Rightarrow> parse_string_loop d s2 ch2 (val @ unescape d ch2))
      else parse_string_loop d (stream_at (pre @ [c]) rest) c (val @ [c]))"
  by (subst parse_string_loop.simps) simp

lemma parse_string_loop_escape:
  "parse_string_loop dquote (stream_at pre (backslash # x # rest)) ch val =
     parse_string_loop dquote (stream_at (pre @ [backslash, x]) rest) x (val @ unescape dquote x)"
  by (simp add: parse_string_loop_step)

lemma stream_char_cases:
  assumes "char_read_back char_signed c"
  shows "(\<exists>x. stream_char char_signed c = [backslash, x] \<and> unescape dquote x = [c])
         \<or> (stream_char char_signed c = [c] \<and> c \<noteq> dquote \<and> c \<noteq> backslash)"
proof -
  have "c = dquote \<Longrightarrow> ?thesis" "c = backslash \<Longrightarrow> ?thesis" "c = CHR ''/'' \<Longrightarrow> ?thesis"
    "c = CHR 0x08 \<Longrightarrow> ?thesis" "c = CHR 0x0C \<Longrightarrow> ?thesis" "c = CHR 0x0A \<Longrightarrow> ?thesis"
    "c = CHR 0x0D \<Longrightarrow> ?thesis" "c = CHR 0x09 \<Longrightarrow> ?thesis"
    by (simp_all add: stream_char_def unescape_def)
  moreover have "c \<noteq> dquote \<Longrightarrow> c \<noteq> backslash \<Longrightarrow> c \<noteq> CHR ''/'' \<Longrightarrow> c \<noteq> CHR 0x08
      \<Longrightarrow> c \<noteq> CHR 0x0C \<Longrightarrow> c \<noteq> CHR 0x0A \<Longrightarrow> c \<noteq> CHR 0x0D \<Longrightarrow> c \<noteq> CHR 0x09 \<Longrightarrow> ?thesis"
    using assms by (simp add: stream_char_def char_read_back_def)
  ultimately show ?thesis by blast
qed

lemma parse_string_loop_char:
  assumes "char_read_back char_signed c"
  shows "\<exists>ch'. parse_string_loop dquote (stream_at pre (stream_char char_signed c @ rest)) ch val
           = parse_string_loop dquote (stream_at (pre @ stream_char char_signed c) rest) ch' (val @ [c])"
  using stream_char_cases [OF assms]
proof
  assume "\<exists>x. stream_char char_signed c = [backslash, x] \<and> unescape dquote x = [c]"
  then obtain x where "stream_char char_signed c = [backslash, x]" "unescape dquote x = [c]"
    by blast
  then show ?thesis using parse_string_loop_escape [of pre x rest ch val] by auto
next
  assume "stream_char char_signed c = [c] \<and> c \<noteq> dquote \<and> c \<noteq> backslash"
  then show ?thesis using parse_string_loop_step [of dquote pre c rest ch val] by auto
qed

lemma parse_string_loop_written:
  assumes "list_all (char_read_back char_signed) str"
  shows "parse_string_loop dquote
           (stream_at pre (concat (map (stream_char char_signed) str) @ dquote # rest)) ch val
         = (stream_at (pre @ concat (map (stream_char char_signed) str) @ [dquote]) rest,
            dquote, val @ str)"
  using assms
proof (induction str arbitrary: pre ch val)
  case Nil
  show ?case by (simp add: parse_string_loop_step)
next
  case (Cons c str)
  obtain ch' where
    "parse_string_loop dquote (stream_at pre (stream_char char_signed c
         @ (concat (map (stream_char char_signed) str) @ dquote # rest))) ch val
       = parse_string_loop dquote (stream_at (pre @ stream_char char_signed c)
           (concat (map (stream_char char_signed) str) @ dquote # rest)) ch' (val @ [c])"
    using parse_string_loop_char [of char_signed c pre
        "concat (map (stream_char char_signed) str) @ dquote # rest" ch val] Cons.prems
    by auto
  then show ?case
    using Cons.IH [of "pre @ stream_char char_signed c" ch' "val @ [c]"] Cons.prems by simp
qed

lemma parse_string_written:
  assumes "list_all (char_read_back char_signed) str" and "\<forall>x \<in> set w. isspace x"
  shows "parse_string strict (stream_at pre (w @ stream_string char_signed str @ rest)) []
           = (True, stream_at (pre @ w @ stream_string char_signed str) rest, str)"
proof -
  have "match [dquote] (stream_at pre (w @ [dquote]
           @ (concat (map (stream_char char_signed) str) @ dquote # rest)))
          = (True, stream_at (pre @ w @ [dquote])
               (concat (map (stream_char char_signed) str) @ dquote # rest))"
    using assms(2) by (intro match_success) simp_all
  then show ?thesis
    using parse_string_loop_written [OF assms(1), of "pre @ w @ [dquote]" rest "CHR 0x00" "[]"]
    by (simp add: parse_string_def parse_string_body_def stream_string_def)
qed

subsection \<open>Strings: reading a literal\<close>

text \<open>On a good stream the loop of \<open>parse_string\<close> reads a literal up to its closing
  delimiter and appends what the literal decodes to.\<close>

lemma parse_string_loop_decode:
  assumes "decode d chars = Some (v, rest)"
  shows "\<exists>used. chars = used @ rest
           \<and> parse_string_loop d (stream_at pre chars) ch val = (stream_at (pre @ used) rest, d, val @ v)"
  using assms
proof (induction d chars arbitrary: pre ch val v rule: decode.induct)
  case (1 d)
  then show ?case by simp
next
  case (2 d c cs)
  show ?case
  proof (cases "c = d")
    case True
    then have "v = []" "rest = cs" using "2.prems" by simp_all
    then have "c # cs = [c] @ rest
        \<and> parse_string_loop d (stream_at pre (c # cs)) ch val = (stream_at (pre @ [c]) rest, d, val @ v)"
      using True by (simp add: parse_string_loop_step)
    then show ?thesis by blast
  next
    case nd: False
    show ?thesis
    proof (cases "c = backslash")
      case True
      then obtain x xs v' where cs: "cs = x # xs" and d: "decode d xs = Some (v', rest)"
        and v: "v = unescape d x @ v'"
        using "2.prems" nd by (auto split: list.splits option.splits)
      obtain used where u: "xs = used @ rest"
        and l: "parse_string_loop d (stream_at (pre @ [c, x]) xs) x (val @ unescape d x)
                  = (stream_at ((pre @ [c, x]) @ used) rest, d, (val @ unescape d x) @ v')"
        using "2.IH"(1) [OF nd True cs d, of "pre @ [c, x]" x "val @ unescape d x"] by blast
      have "c # cs = (c # x # used) @ rest
        \<and> parse_string_loop d (stream_at pre (c # cs)) ch val
            = (stream_at (pre @ (c # x # used)) rest, d, val @ v)"
        using nd True cs u l v by (simp add: parse_string_loop_step)
      then show ?thesis by blast
    next
      case nb: False
      then obtain v' where d: "decode d cs = Some (v', rest)" and v: "v = c # v'"
        using "2.prems" nd by (auto split: option.splits)
      obtain used where u: "cs = used @ rest"
        and l: "parse_string_loop d (stream_at (pre @ [c]) cs) c (val @ [c])
                  = (stream_at ((pre @ [c]) @ used) rest, d, (val @ [c]) @ v')"
        using "2.IH"(2) [OF nd nb d, of "pre @ [c]" c "val @ [c]"] by blast
      have "c # cs = (c # used) @ rest
        \<and> parse_string_loop d (stream_at pre (c # cs)) ch val
            = (stream_at (pre @ (c # used)) rest, d, val @ v)"
        using nd nb u l v by (simp add: parse_string_loop_step)
      then show ?thesis by blast
    qed
  qed
qed

lemma parse_string_body_decode:
  assumes "decode d chars = Some (v, rest)"
  shows "parse_string_body d (stream_at pre chars) ch val
           = (True, stream_at (pre @ literal_end chars rest) rest, val @ v)"
proof -
  obtain used where u: "chars = used @ rest"
    and l: "parse_string_loop d (stream_at pre chars) ch val = (stream_at (pre @ used) rest, d, val @ v)"
    using parse_string_loop_decode [OF assms] by blast
  have "literal_end chars rest = used" using u by (simp add: literal_end_def)
  then show ?thesis using l by (simp add: parse_string_body_def)
qed

lemma parse_string_double_quoted:
  assumes "\<forall>x \<in> set w. isspace x" and "decode dquote chars = Some (v, rest)"
  shows "parse_string strict (stream_at pre (w @ dquote # chars)) slot
           = (True, stream_at (pre @ w @ dquote # literal_end chars rest) rest, slot @ v)"
proof -
  have "match [dquote] (stream_at pre (w @ [dquote] @ chars)) = (True, stream_at (pre @ w @ [dquote]) chars)"
    using assms(1) by (intro match_success) (simp_all add: isspace_def)
  then show ?thesis
    using parse_string_body_decode [OF assms(2), of "pre @ w @ [dquote]" "CHR 0x00" slot]
    by (simp add: parse_string_def)
qed

lemma parse_string_single_quoted:
  assumes "\<forall>x \<in> set w. isspace x" and "decode squote chars = Some (v, rest)"
  shows "parse_string False (stream_at pre (w @ squote # chars)) slot
           = (True, stream_at (pre @ w @ squote # literal_end chars rest) rest, slot @ v)"
proof -
  have "match [dquote] (stream_at pre (w @ squote # chars)) = (False, stream_at (pre @ w) (squote # chars))"
    using assms(1) by (intro match_first_char_differs) (simp_all add: isspace_def)
  then show ?thesis
    using parse_string_body_decode [OF assms(2), of "(pre @ w) @ [squote]" squote slot]
    by (simp add: parse_string_def)
qed

subsection \<open>\<open>Value_parse\<close> on the text of a scalar and at an opening bracket or brace\<close>

lemma Value_parse_probe_fails:
  assumes "\<not> isspace c" "c \<noteq> dquote" "c \<noteq> squote" "\<not> float_char c"
    "c \<noteq> CHR ''t''" "c \<noteq> CHR ''f''" "c \<noteq> CHR ''n''" "c \<noteq> CHR '',''"
    "c \<noteq> CHR ''[''" "c \<noteq> CHR ''{''"
  shows "Value_parse (Suc k) strict strtod (stream_at pre (c # rest)) val
           = Some (False, stream_at pre (c # rest), reset val)"
  using assms parse_string_fails [of "[]" c strict pre rest]
  by (simp add: Value_parse_body_def parse_number_fails parse_bool_fails parse_null_fails
      Object_parse_body_def)

lemma Value_parse_string_written:
  assumes "list_all (char_read_back char_signed) str" and "\<forall>x \<in> set w. isspace x"
  shows "Value_parse (Suc k) strict strtod
           (stream_at pre (w @ stream_string char_signed str @ rest)) val
         = Some (True, stream_at (pre @ w @ stream_string char_signed str) rest, String_value str)"
  using parse_string_written [OF assms, of strict pre rest]
  by (simp add: Value_parse_body_def)

lemma Value_parse_number_written:
  assumes "number_read_back strtod num_put n" and "value_end rest" and "\<forall>x \<in> set w. isspace x"
  shows "Value_parse (Suc k) strict strtod (stream_at pre (w @ num_put n @ rest)) val
         = Some (True, stream_after (Number_value n) (pre @ w @ num_put n) rest, Number_value n)"
proof -
  obtain f where f: "extract_float (num_put n) = (f, [])" "f \<noteq> []"
    using assms(1) by (auto simp: number_read_back_def split: prod.splits)
  have "num_put n \<noteq> []"
    using f by (auto simp: extract_float_def float_zeros_def)
  then obtain c cs where t: "num_put n = c # cs" by (cases "num_put n") auto
  have c: "float_char c" using extract_float_first f(1) t by metis
  have "parse_string strict (stream_at pre (w @ c # cs @ rest)) []
          = (False, stream_at (pre @ w) (c # cs @ rest), [])"
    using c float_char_not_space float_char_not_quote assms(3)
    by (intro parse_string_fails) auto
  then show ?thesis
    using parse_number_read_back [OF assms(1,2), of "pre @ w"] t
    by (simp add: Value_parse_body_def)
qed

lemma Value_parse_bool_written:
  assumes "\<forall>x \<in> set w. isspace x"
  shows "Value_parse (Suc k) strict strtod
           (stream_at pre (w @ (if b then ''true'' else ''false'') @ rest)) val
         = Some (True, stream_at (pre @ w @ (if b then ''true'' else ''false'')) rest, Bool_value b)"
proof (cases b)
  case True
  have "parse_string strict (stream_at pre (w @ CHR ''t'' # ''rue'' @ rest)) []
          = (False, stream_at (pre @ w) (CHR ''t'' # ''rue'' @ rest), [])"
    using assms by (intro parse_string_fails) auto
  then show ?thesis
    using True parse_bool_true [of "pre @ w" rest]
    by (simp add: Value_parse_body_def parse_number_fails)
next
  case False
  have "parse_string strict (stream_at pre (w @ CHR ''f'' # ''alse'' @ rest)) []
          = (False, stream_at (pre @ w) (CHR ''f'' # ''alse'' @ rest), [])"
    using assms by (intro parse_string_fails) auto
  then show ?thesis
    using False parse_bool_false [of "pre @ w" rest]
    by (simp add: Value_parse_body_def parse_number_fails)
qed

lemma Value_parse_null_written:
  assumes "\<forall>x \<in> set w. isspace x"
  shows "Value_parse (Suc k) strict strtod (stream_at pre (w @ ''null'' @ rest)) val
         = Some (True, stream_at (pre @ w @ ''null'') rest, Null_value)"
proof -
  have "parse_string strict (stream_at pre (w @ CHR ''n'' # ''ull'' @ rest)) []
          = (False, stream_at (pre @ w) (CHR ''n'' # ''ull'' @ rest), [])"
    using assms by (intro parse_string_fails) auto
  then show ?thesis
    using parse_null_null [of strict "pre @ w" rest]
    by (simp add: Value_parse_body_def parse_number_fails parse_bool_fails)
qed

lemma Value_parse_on_bracket:
  assumes "\<forall>x \<in> set w. isspace x"
  shows "Value_parse (Suc k) strict strtod (stream_at pre (w @ CHR ''['' # text)) val =
     (case Array_parse_body (Array_loop k (Value_parse k strict strtod))
             (stream_at (pre @ w) (CHR ''['' # text)) of
        None \<Rightarrow> None
      | Some (ok5, s6, a) \<Rightarrow>
          if ok5 then Some (True, s6, Array_value a)
          else (case Object_parse_body (Object_loop k strict (Value_parse k strict strtod)) s6 of
                  None \<Rightarrow> None
                | Some (ok6, s7, ob) \<Rightarrow>
                    if ok6 then Some (True, s7, Object_value ob)
                    else Some (False, s7, reset val)))"
proof -
  have "parse_string strict (stream_at pre (w @ CHR ''['' # text)) []
          = (False, stream_at (pre @ w) (CHR ''['' # text), [])"
    using assms by (intro parse_string_fails) auto
  then show ?thesis
    by (simp add: Value_parse_body_def parse_number_fails parse_bool_fails parse_null_fails)
qed

lemma Value_parse_on_brace:
  assumes "\<forall>x \<in> set w. isspace x"
  shows "Value_parse (Suc k) strict strtod (stream_at pre (w @ CHR ''{'' # text)) val =
     (case Object_parse_body (Object_loop k strict (Value_parse k strict strtod))
             (stream_at (pre @ w) (CHR ''{'' # text)) of
        None \<Rightarrow> None
      | Some (ok6, s7, ob) \<Rightarrow>
          if ok6 then Some (True, s7, Object_value ob) else Some (False, s7, reset val))"
proof -
  have "parse_string strict (stream_at pre (w @ CHR ''{'' # text)) []
          = (False, stream_at (pre @ w) (CHR ''{'' # text), [])"
    using assms by (intro parse_string_fails) auto
  then show ?thesis
    by (simp add: Value_parse_body_def parse_number_fails parse_bool_fails parse_null_fails)
qed

subsection \<open>The loops on the text of the items\<close>

text \<open>Both lemmas take the value parser and the text of a value as parameters: all they
  need is that the parser reads the text of each item, whatever whitespace precedes it.\<close>

lemma comma_separated_Cons:
  "xs \<noteq> [] \<Longrightarrow> comma_separated (x # xs) = x @ '', '' @ comma_separated xs"
  by (cases xs) simp_all

lemma map_assign_append:
  "\<forall>x \<in> set m. fst x < k \<Longrightarrow> map_assign k v m = m @ [(k, v)]"
  by (induction m) (auto simp: less_le_not_le)

lemma Array_loop_written:
  assumes "vs \<noteq> []"
    and "\<And>v pre w rest. v \<in> set vs \<Longrightarrow> \<forall>x \<in> set w. isspace x \<Longrightarrow> rest \<noteq> [] \<Longrightarrow> value_end rest \<Longrightarrow>
           vp (stream_at pre (w @ out v @ rest)) Invalid_value
             = Some (True, stream_at (pre @ w @ out v) rest, v)"
    and "length vs \<le> k" and "\<forall>x \<in> set w. isspace x"
  shows "Array_loop k vp (stream_at pre (w @ comma_separated (map out vs) @ CHR '']'' # rest)) acc
           = Some (stream_at (pre @ w @ comma_separated (map out vs)) (CHR '']'' # rest), acc @ vs)"
  using assms
proof (induction vs arbitrary: k pre w acc rule: list_nonempty_induct)
  case (single v)
  obtain k' where k: "k = Suc k'" using single.prems(2) by (cases k) auto
  have "vp (stream_at pre (w @ out v @ CHR '']'' # rest)) Invalid_value
          = Some (True, stream_at (pre @ w @ out v) (CHR '']'' # rest), v)"
    using single.prems(1) [of v w "CHR '']'' # rest" pre] single.prems(3)
    by (simp add: value_end_def)
  then show ?case by (simp add: k Array_loop_body_def)
next
  case (cons v vs)
  obtain k' where k: "k = Suc k'" using cons.prems(2) by (cases k) auto
  let ?tail = "comma_separated (map out vs) @ CHR '']'' # rest"
  have layout: "comma_separated (out v # map out vs) = out v @ CHR '','' # CHR '' '' # comma_separated (map out vs)"
    using cons.hyps by (simp add: comma_separated_Cons)
  have "vp (stream_at pre (w @ out v @ CHR '','' # CHR '' '' # ?tail)) Invalid_value
          = Some (True, stream_at (pre @ w @ out v) (CHR '','' # CHR '' '' # ?tail), v)"
    using cons.prems(1) [of v w "CHR '','' # CHR '' '' # ?tail" pre] cons.prems(3)
    by (simp add: value_end_def)
  moreover have "Array_loop k' vp (stream_at ((pre @ w @ out v) @ '','') ('' '' @ ?tail)) (acc @ [v])
          = Some (stream_at (((pre @ w @ out v) @ '','') @ '' '' @ comma_separated (map out vs))
                    (CHR '']'' # rest), (acc @ [v]) @ vs)"
    using cons.prems(1,2) k by (intro cons.IH) auto
  ultimately show ?case by (simp add: k Array_loop_body_def layout)
qed

lemma Object_loop_written:
  assumes "kv \<noteq> []"
    and "\<And>key v pre w rest. (key, v) \<in> set kv \<Longrightarrow> \<forall>x \<in> set w. isspace x \<Longrightarrow> rest \<noteq> [] \<Longrightarrow>
           value_end rest \<Longrightarrow>
           vp (stream_at pre (w @ out v @ rest)) Invalid_value
             = Some (True, stream_at (pre @ w @ out v) rest, v)"
    and "\<forall>i \<in> set kv. list_all (char_read_back char_signed) (fst i)"
    and "length kv \<le> k" and "\<forall>x \<in> set w. isspace x"
    and "sorted_wrt (<) (map fst (m @ kv))"
  shows "Object_loop k strict vp
           (stream_at pre (w @ comma_separated
              (map (\<lambda>i. stream_string char_signed (fst i) @ '': '' @ out (snd i)) kv)
              @ CHR ''}'' # rest)) m
         = Some (True,
             stream_at (pre @ w @ comma_separated
               (map (\<lambda>i. stream_string char_signed (fst i) @ '': '' @ out (snd i)) kv))
               (CHR ''}'' # rest),
             m @ kv)"
  using assms
proof (induction kv arbitrary: k pre w m rule: list_nonempty_induct)
  case (single e)
  obtain key v where e: "e = (key, v)" by (cases e)
  obtain k' where k: "k = Suc k'" using single.prems(3) by (cases k) auto
  let ?after = "CHR ''}'' # rest"
  have key: "parse_string strict
               (stream_at pre (w @ stream_string char_signed key @ (CHR '':'' # CHR '' '' # out v @ ?after))) []
          = (True, stream_at (pre @ w @ stream_string char_signed key)
                     (CHR '':'' # CHR '' '' # out v @ ?after), key)"
    using single.prems(2,4) e by (intro parse_string_written) auto
  have val: "vp (stream_at ((pre @ w @ stream_string char_signed key) @ '':'') ('' '' @ out v @ ?after))
               Invalid_value
          = Some (True, stream_at (((pre @ w @ stream_string char_signed key) @ '':'') @ '' '' @ out v)
                          ?after, v)"
    using e by (intro single.prems(1)) (auto simp: value_end_def)
  have "map_assign key v m = m @ [(key, v)]"
    using single.prems(5) e by (intro map_assign_append) (auto simp: sorted_wrt_append)
  then show ?case using key val
    by (simp add: k e Object_loop_body_def)
next
  case (cons e kv)
  obtain key v where e: "e = (key, v)" by (cases e)
  obtain k' where k: "k = Suc k'" using cons.prems(3) by (cases k) auto
  let ?entries = "comma_separated
       (map (\<lambda>i. stream_string char_signed (fst i) @ '': '' @ out (snd i)) kv)"
  let ?tail = "?entries @ CHR ''}'' # rest"
  let ?after = "CHR '','' # CHR '' '' # ?tail"
  have layout: "comma_separated
       ((stream_string char_signed key @ CHR '':'' # CHR '' '' # out v)
        # map (\<lambda>i. stream_string char_signed (fst i) @ CHR '':'' # CHR '' '' # out (snd i)) kv)
     = stream_string char_signed key @ CHR '':'' # CHR '' '' # out v @ CHR '','' # CHR '' '' # ?entries"
    using cons.hyps e by (simp add: comma_separated_Cons)
  have key: "parse_string strict
               (stream_at pre (w @ stream_string char_signed key @ (CHR '':'' # CHR '' '' # out v @ ?after))) []
          = (True, stream_at (pre @ w @ stream_string char_signed key)
                     (CHR '':'' # CHR '' '' # out v @ ?after), key)"
    using cons.prems(2,4) e by (intro parse_string_written) auto
  have val: "vp (stream_at ((pre @ w @ stream_string char_signed key) @ '':'') ('' '' @ out v @ ?after))
               Invalid_value
          = Some (True, stream_at (((pre @ w @ stream_string char_signed key) @ '':'') @ '' '' @ out v)
                          ?after, v)"
    using e by (intro cons.prems(1)) (auto simp: value_end_def)
  have elems': "vp (stream_at pre (w @ out v @ rest)) Invalid_value
                  = Some (True, stream_at (pre @ w @ out v) rest, v)"
    if "(key, v) \<in> set kv" "\<forall>x \<in> set w. isspace x" "rest \<noteq> []" "value_end rest"
    for key v pre w rest
    using that cons.prems(1) [of key v w rest pre] by simp
  have ins: "map_assign key v m = m @ [(key, v)]"
    using cons.prems(5) e by (intro map_assign_append) (auto simp: sorted_wrt_append)
  have "Object_loop k' strict vp
          (stream_at ((((pre @ w @ stream_string char_signed key) @ '':'') @ '' '' @ out v) @ '','')
             ('' '' @ ?tail)) (m @ [(key, v)])
        = Some (True,
            stream_at (((((pre @ w @ stream_string char_signed key) @ '':'') @ '' '' @ out v) @ '','')
               @ '' '' @ ?entries) (CHR ''}'' # rest),
            (m @ [(key, v)]) @ kv)"
    using cons.prems(2,3,4,5) k e elems' by (intro cons.IH) auto
  then show ?case using key val ins
    by (simp add: k e Object_loop_body_def layout)
qed

subsection \<open>Arrays and objects on their text\<close>

lemma stream_after_not_number [simp]:
  "value_type v \<noteq> NUMBER \<Longrightarrow> stream_after v pre rest = stream_at pre rest"
  and stream_after_more [simp]: "rest \<noteq> [] \<Longrightarrow> stream_after v pre rest = stream_at pre rest"
  by (simp_all add: stream_after_def)

lemma fuel_for_member: "x \<in> set vs \<Longrightarrow> fuel_for x \<le> sum_list (map fuel_for vs)"
  by (induction vs) auto

lemma fuel_for_entry:
  "(key, v) \<in> set kv \<Longrightarrow> fuel_for v \<le> sum_list (map (\<lambda>i. fuel_for (snd i)) kv)"
  by (induction kv) auto

lemma Array_parse_body_written:
  assumes "\<And>v pre w rest. v \<in> set vs \<Longrightarrow> \<forall>x \<in> set w. isspace x \<Longrightarrow> rest \<noteq> [] \<Longrightarrow> value_end rest \<Longrightarrow>
           Value_parse k strict strtod (stream_at pre (w @ out v @ rest)) Invalid_value
             = Some (True, stream_at (pre @ w @ out v) rest, v)"
    and "Suc (length vs) \<le> k"
  shows "Array_parse_body (Array_loop k (Value_parse k strict strtod))
           (stream_at pre (CHR ''['' # comma_separated (map out vs) @ CHR '']'' # rest))
         = Some (True, stream_at (pre @ CHR ''['' # comma_separated (map out vs) @ '']'') rest, vs)"
proof (cases "vs = []")
  case True
  obtain k' where k: "k = Suc k'" using assms(2) by (cases k) auto
  have "Value_parse (Suc k') strict strtod (stream_at (pre @ ''['') (CHR '']'' # rest)) Invalid_value
          = Some (False, stream_at (pre @ ''['') (CHR '']'' # rest), reset Invalid_value)"
    by (intro Value_parse_probe_fails) simp_all
  then show ?thesis using True
    by (simp add: Array_parse_body_def k Array_loop_body_def)
next
  case False
  have "Array_loop k (Value_parse k strict strtod)
          (stream_at (pre @ ''['') ([] @ comma_separated (map out vs) @ CHR '']'' # rest)) []
        = Some (stream_at ((pre @ ''['') @ [] @ comma_separated (map out vs)) (CHR '']'' # rest), [] @ vs)"
    using False assms by (intro Array_loop_written) auto
  then show ?thesis
    by (simp add: Array_parse_body_def)
qed

lemma Object_parse_body_written:
  assumes "\<And>key v pre w rest. (key, v) \<in> set kv \<Longrightarrow> \<forall>x \<in> set w. isspace x \<Longrightarrow> rest \<noteq> [] \<Longrightarrow>
           value_end rest \<Longrightarrow>
           Value_parse k strict strtod (stream_at pre (w @ out v @ rest)) Invalid_value
             = Some (True, stream_at (pre @ w @ out v) rest, v)"
    and "\<forall>i \<in> set kv. list_all (char_read_back char_signed) (fst i)"
    and "length kv \<le> k"
    and "sorted_wrt (<) (map fst kv)"
  shows "Object_parse_body (Object_loop k strict (Value_parse k strict strtod))
           (stream_at pre (CHR ''{'' # comma_separated
              (map (\<lambda>i. stream_string char_signed (fst i) @ '': '' @ out (snd i)) kv)
              @ CHR ''}'' # rest))
         = Some (True,
             stream_at (pre @ CHR ''{'' # comma_separated
               (map (\<lambda>i. stream_string char_signed (fst i) @ '': '' @ out (snd i)) kv) @ ''}'')
               rest,
             kv)"
proof (cases "kv = []")
  case True
  then show ?thesis by (simp add: Object_parse_body_def)
next
  case False
  let ?entries = "comma_separated
       (map (\<lambda>i. stream_string char_signed (fst i) @ '': '' @ out (snd i)) kv)"
  obtain t where t: "?entries = dquote # t"
  proof (cases kv)
    case Nil
    then show ?thesis using False by simp
  next
    case (Cons e kv')
    then show ?thesis using that
      by (cases kv') (simp_all add: stream_string_def)
  qed
  have first: "match ''}'' (stream_at (pre @ ''{'') (dquote # t @ CHR ''}'' # rest))
                 = (False, stream_at (pre @ ''{'') (dquote # t @ CHR ''}'' # rest))"
    by (intro match_first_char_differs_nospace) simp_all
  have "Object_loop k strict (Value_parse k strict strtod)
          (stream_at (pre @ ''{'') ([] @ ?entries @ CHR ''}'' # rest)) []
        = Some (True, stream_at ((pre @ ''{'') @ [] @ ?entries) (CHR ''}'' # rest), [] @ kv)"
    using False assms by (intro Object_loop_written) auto
  then show ?thesis using first t
    by (simp add: Object_parse_body_def)
qed

subsection \<open>Any value on its text\<close>

text \<open>By induction on the value: a value whose numbers, strings and keys are read back
  and whose objects are in key order is read from its text, after any whitespace and
  before the end of the buffer or a comma, bracket or brace, by a budget of its size.\<close>

lemma Value_parse_written:
  assumes "read_back strtod num_put char_signed v" and "objects_sorted v"
    and "fuel_for v \<le> fuel" and "\<forall>x \<in> set w. isspace x" and "value_end rest"
  shows "Value_parse fuel strict strtod
           (stream_at pre (w @ Value_out num_put char_signed v @ rest)) val
         = Some (True, stream_after v (pre @ w @ Value_out num_put char_signed v) rest, v)"
  using assms
proof (induction v arbitrary: fuel pre w rest val)
  case Invalid_value
  then show ?case by simp
next
  case (Number_value n)
  obtain k where k: "fuel = Suc k" using Number_value.prems(3) by (cases fuel) auto
  show ?case
    using Value_parse_number_written [of strtod num_put n rest w k strict pre val]
      Number_value.prems
    by (simp add: k)
next
  case (String_value s)
  obtain k where k: "fuel = Suc k" using String_value.prems(3) by (cases fuel) auto
  show ?case
    using Value_parse_string_written [of char_signed s w k strict strtod pre rest val]
      String_value.prems
    by (simp add: k)
next
  case (Bool_value b)
  obtain k where k: "fuel = Suc k" using Bool_value.prems(3) by (cases fuel) auto
  show ?case
    using Value_parse_bool_written [of w k strict strtod pre b rest val] Bool_value.prems
    by (simp add: k)
next
  case Null_value
  obtain k where k: "fuel = Suc k" using Null_value.prems(3) by (cases fuel) auto
  show ?case
    using Value_parse_null_written [of w k strict strtod pre rest val] Null_value.prems
    by (simp add: k)
next
  case (Array_value vs)
  obtain k where k: "fuel = Suc k" using Array_value.prems(3) by (cases fuel) auto
  have "Value_parse k strict strtod
            (stream_at pre (w @ Value_out num_put char_signed v @ rest)) Invalid_value
          = Some (True, stream_at (pre @ w @ Value_out num_put char_signed v) rest, v)"
    if "v \<in> set vs" "\<forall>x \<in> set w. isspace x" "rest \<noteq> []" "value_end rest" for v pre w rest
  proof -
    have "fuel_for v \<le> k"
      using fuel_for_member [OF that(1)] Array_value.prems(3) k by simp
    moreover have "read_back strtod num_put char_signed v" "objects_sorted v"
      using that(1) Array_value.prems(1,2) by (simp_all add: list_all_iff)
    ultimately show ?thesis
      using Array_value.IH [OF that(1), of k w rest pre Invalid_value] that by simp
  qed
  moreover have "Suc (length vs) \<le> k"
    using Array_value.prems(3) k by simp
  ultimately have "Array_parse_body (Array_loop k (Value_parse k strict strtod))
           (stream_at (pre @ w) (CHR ''['' # comma_separated (map (Value_out num_put char_signed) vs)
              @ CHR '']'' # rest))
         = Some (True, stream_at ((pre @ w) @ CHR ''['' # comma_separated
              (map (Value_out num_put char_signed) vs) @ '']'') rest, vs)"
    by (intro Array_parse_body_written) auto
  then show ?case
    using Value_parse_on_bracket [OF Array_value.prems(4), of k strict strtod pre
        "comma_separated (map (Value_out num_put char_signed) vs) @ CHR '']'' # rest" val]
    by (simp add: k)
next
  case (Object_value kv)
  obtain k where k: "fuel = Suc k" using Object_value.prems(3) by (cases fuel) auto
  have "Value_parse k strict strtod
            (stream_at pre (w @ Value_out num_put char_signed v @ rest)) Invalid_value
          = Some (True, stream_at (pre @ w @ Value_out num_put char_signed v) rest, v)"
    if "(key, v) \<in> set kv" "\<forall>x \<in> set w. isspace x" "rest \<noteq> []" "value_end rest"
    for key v pre w rest
  proof -
    have "fuel_for v \<le> k"
      using fuel_for_entry [OF that(1)] Object_value.prems(3) k by simp
    moreover have "read_back strtod num_put char_signed v" "objects_sorted v"
      using that(1) Object_value.prems(1,2) by (auto simp: list_all_iff)
    ultimately show ?thesis
      using Object_value.IH [of "(key, v)" v k w rest pre Invalid_value] that by simp
  qed
  moreover have "\<forall>i \<in> set kv. list_all (char_read_back char_signed) (fst i)"
    "length kv \<le> k" "sorted_wrt (<) (map fst kv)"
    using Object_value.prems(1,2,3) k by (simp_all add: list_all_iff)
  ultimately have "Object_parse_body (Object_loop k strict (Value_parse k strict strtod))
           (stream_at (pre @ w) (CHR ''{'' # comma_separated
              (map (\<lambda>i. stream_string char_signed (fst i) @ '': ''
                         @ Value_out num_put char_signed (snd i)) kv)
              @ CHR ''}'' # rest))
         = Some (True,
             stream_at ((pre @ w) @ CHR ''{'' # comma_separated
               (map (\<lambda>i. stream_string char_signed (fst i) @ '': ''
                          @ Value_out num_put char_signed (snd i)) kv) @ ''}'')
               rest,
             kv)"
    by (intro Object_parse_body_written) auto
  then show ?case
    using Value_parse_on_brace [OF Object_value.prems(4), of k strict strtod pre
        "comma_separated (map (\<lambda>i. stream_string char_signed (fst i) @ '': ''
                         @ Value_out num_put char_signed (snd i)) kv) @ CHR ''}'' # rest" val]
    by (simp add: k)
qed

section \<open>Further facts used in the discussion of the claims\<close>

text \<open>A failed \<open>Value_parse\<close> returns the value it was given: one that was freshly
  constructed is still of no type, one that held something still has its tag.\<close>

lemma failed_parse_leaves_value:
  assumes "Value_parse fuel strict strtod s val = Some (False, s', v)"
  shows "v = val"
proof (cases fuel)
  case 0
  then show ?thesis using assms by simp
next
  case (Suc k)
  obtain ok1 s1 str where a: "parse_string strict s [] = (ok1, s1, str)"
    by (cases "parse_string strict s []")
  obtain ok2 s2 n where b: "parse_number strtod s1 = (ok2, s2, n)"
    by (cases "parse_number strtod s1")
  obtain ok3 s3 bv where c: "parse_bool s2 = (ok3, s3, bv)"
    by (cases "parse_bool s2")
  obtain ok4 s4 where d: "parse_null strict s3 = (ok4, s4)"
    by (cases "parse_null strict s3")
  obtain s5 ch where e: "peek s4 = (s5, ch)"
    by (cases "peek s4")
  show ?thesis
    using assms Suc a b c d e
    by (auto simp: Value_parse_body_def reset_def split: if_splits option.splits)
qed

text \<open>Where plain \<^verbatim>\<open>char\<close> is unsigned, \<open>stream_string\<close> writes what C7 says: the eight
  two-character escapes, \<^verbatim>\<open>\u\<close> and six hexadecimal digits for the other characters
  below 32, and any other character as it is. Where it is signed the same holds for
  the characters below 128.\<close>

lemma hex_of_nat_small: "n < 16 \<Longrightarrow> hex_of_nat n = [hex_digit n]"
  by (simp add: hex_of_nat.simps)

lemma hex_of_nat_two: "16 \<le> n \<Longrightarrow> n < 256 \<Longrightarrow> hex_of_nat n = [hex_digit (n div 16), hex_digit n]"
  by (subst hex_of_nat.simps) (simp add: hex_of_nat_small)

lemma stream_char_unsigned:
  "stream_char False c =
     (if c = dquote then [backslash, dquote]
      else if c = backslash then [backslash, backslash]
      else if c = CHR ''/'' then [backslash, CHR ''/'']
      else if c = CHR 0x08 then [backslash, CHR ''b'']
      else if c = CHR 0x0C then [backslash, CHR ''f'']
      else if c = CHR 0x0A then [backslash, CHR ''n'']
      else if c = CHR 0x0D then [backslash, CHR ''r'']
      else if c = CHR 0x09 then [backslash, CHR ''t'']
      else if (of_char c :: nat) < 16 then [backslash, CHR ''u''] @ ''00000'' @ [hex_digit (of_char c)]
      else if (of_char c :: nat) < 32 then [backslash, CHR ''u''] @ ''00001'' @ [hex_digit (of_char c)]
      else [c])"
proof -
  have small: "hex_of_int (int n) = [hex_digit n]" if "n < 16" for n
    using that by (simp add: hex_of_int_def hex_of_nat_small)
  have two: "hex_of_int (int n) = [CHR ''1'', hex_digit n]" if "16 \<le> n" "n < 32" for n
  proof -
    have "n div 16 = 1" using that by simp
    moreover have "nat (int n mod 2 ^ 32) = n" using that by simp
    ultimately show ?thesis using that
      by (simp add: hex_of_int_def hex_of_nat_two hex_digit_def)
  qed
  show ?thesis
    by (auto simp: stream_char_def int_of_char_def small two setw_fill_def numeral_eq_Suc)
qed

lemma stream_string_bell: "stream_string False [CHR 0x07] = [dquote, backslash] @ ''u000007'' @ [dquote]"
  by (simp add: stream_string_def stream_char_unsigned hex_digit_def)

lemma stream_char_signed_ascii:
  "(of_char c :: nat) < 128 \<Longrightarrow> stream_char True c = stream_char False c"
  by (simp add: stream_char_def int_of_char_def)

text \<open>\<open>Value_parse\<close> takes the number and the boolean out of the slot of a successful
  \<open>parse_number\<close> and \<open>parse_bool\<close>: the slot is then filled.\<close>

lemma extract_double_value:
  "extract_double strtod s = (s', v) \<Longrightarrow> \<not> fail s' \<Longrightarrow> v \<noteq> None"
  by (auto simp: extract_double_def sentry_skipws_def fail_def Let_def
      split: prod.splits if_splits)

lemma parse_number_value:
  assumes "parse_number strtod s = (True, s', v)"
  shows "v \<noteq> None"
proof -
  obtain s1 v1 where e: "extract_double strtod (ws s) = (s1, v1)"
    by (cases "extract_double strtod (ws s)")
  then have "\<not> fail s1" "v = v1"
    using assms by (auto simp: parse_number_def split: if_splits)
  then show ?thesis using extract_double_value [OF e] by simp
qed

lemma parse_bool_value:
  "parse_bool s = (True, s', v) \<Longrightarrow> v \<noteq> None"
  by (auto simp: parse_bool_def split: prod.splits if_splits)

section \<open>Facts about the XML serializer\<close>

text \<open>\<open>open_tag\<close> writes the attribute string between the element and the closing
  bracket, and \<open>tag\<close> with the empty attribute string, which is how it calls itself,
  writes a node below the root.\<close>

lemma open_tag_element:
  "open_tag fmt type name attr = element fmt type name @ attr @ ''>''"
  by (cases fmt) (simp_all add: open_tag_def element_def jsonx_element_def)

lemma close_tag_element: "close_tag fmt type = element_end fmt type"
  by (cases fmt) (simp_all add: close_tag_def element_end_def jsonx_element_def)

lemma tag_inner_node:
  "tag num_put fmt depth name v [] = inner_node num_put fmt depth name v"
proof (induction v arbitrary: depth name)
  case (Array_value vals)
  have "map (\<lambda>it. tag num_put fmt (depth + 1) [] it []) vals
           = map (\<lambda>it. inner_node num_put fmt (Suc depth) [] it) vals"
    by (rule map_cong) (simp_all add: Array_value)
  then show ?case
    by (simp only: tag.simps inner_node.simps open_tag_element close_tag_element indent_def) simp
next
  case (Object_value kv)
  have "map (\<lambda>it. tag num_put fmt (depth + 1) (fst it) (snd it) []) kv
           = map (\<lambda>it. inner_node num_put fmt (Suc depth) (fst it) (snd it)) kv"
  proof (rule map_cong)
    fix it assume m: "it \<in> set kv"
    obtain k v where it: "it = (k, v)" by (cases it)
    show "tag num_put fmt (depth + 1) (fst it) (snd it) []
           = inner_node num_put fmt (Suc depth) (fst it) (snd it)"
      using Object_value [of "(k, v)" v "Suc depth" k] m it by simp
  qed simp
  then show ?case
    by (simp only: tag.simps inner_node.simps open_tag_element close_tag_element indent_def) simp
qed (simp_all add: open_tag_element close_tag_element indent_def)

section \<open>The parsers return\<close>

subsection \<open>No parser moves the read position backwards\<close>

lemma advanced_refl: "gpos s \<le> length (buf s) \<Longrightarrow> advanced s s"
  by (simp add: advanced_def)

lemma advanced_trans: "advanced s s' \<Longrightarrow> advanced s' s'' \<Longrightarrow> advanced s s''"
  by (auto simp: advanced_def)

lemma advanced_wf: "advanced s s' \<Longrightarrow> gpos s' \<le> length (buf s')"
  by (simp add: advanced_def)

lemma advanced_unread: "advanced s s' \<Longrightarrow> unread s' \<le> unread s"
  by (auto simp: advanced_def unread_def)

lemma advanced_flags [simp]:
  "advanced s (s'\<lparr>eofbit := e\<rparr>) = advanced s s'"
  "advanced s (s'\<lparr>failbit := f\<rparr>) = advanced s s'"
  "advanced s (s'\<lparr>badbit := b\<rparr>) = advanced s s'"
  "advanced s (clear s') = advanced s s'"
  by (simp_all add: advanced_def clear_def)

lemma ws_advanced: "gpos s \<le> length (buf s) \<Longrightarrow> advanced s (ws s)"
proof -
  assume wf: "gpos s \<le> length (buf s)"
  have "length (takeWhile isspace (drop (gpos s) (buf s))) \<le> length (buf s) - gpos s"
    using length_takeWhile_le [of isspace "drop (gpos s) (buf s)"] by simp
  then show ?thesis using wf
    by (auto simp: ws_def sentry_def remaining_def advanced_def Let_def)
qed

lemma get_advanced: "gpos s \<le> length (buf s) \<Longrightarrow> advanced s (fst (get s ch))"
  by (auto simp: get_def sentry_def sgetc_def advanced_def split: option.splits)

lemma peek_advanced: "gpos s \<le> length (buf s) \<Longrightarrow> advanced s (fst (peek s))"
  by (auto simp: peek_def sentry_def sgetc_def advanced_def split: option.splits)

text \<open>A \<^verbatim>\<open>get\<close> either reads the next character, or reads nothing and leaves a failed
  stream and the old character.\<close>

lemma get_cases:
  assumes "get s ch = (s1, ch1)"
  shows "(gpos s < length (buf s) \<and> s1 = s\<lparr>gpos := Suc (gpos s)\<rparr> \<and> good s)
         \<or> (fail s1 \<and> ch1 = ch \<and> gpos s1 = gpos s \<and> buf s1 = buf s)"
  using assms
  by (auto simp: get_def sentry_def sgetc_def fail_def split: if_splits option.splits)

lemma putback_bounds:
  "buf (putback s c) = buf s \<and> gpos s - 1 \<le> gpos (putback s c) \<and> gpos (putback s c) \<le> gpos s"
  by (auto simp: putback_def sentry_def)

lemma putback_all_bounds:
  "buf (putback_all s m) = buf s \<and> gpos s - length m \<le> gpos (putback_all s m)
     \<and> gpos (putback_all s m) \<le> gpos s"
proof (induction m arbitrary: s)
  case Nil
  show ?case by simp
next
  case (Cons c m)
  show ?case
    using Cons.IH [of "putback s c"] putback_bounds [of s c] by auto
qed

lemma putback_failed:
  "fail s \<Longrightarrow> gpos (putback s c) = gpos s \<and> fail (putback s c) \<and> buf (putback s c) = buf s"
  by (auto simp: putback_def sentry_def good_def fail_def)

lemma putback_all_failed:
  "fail s \<Longrightarrow> gpos (putback_all s m) = gpos s \<and> buf (putback_all s m) = buf s"
proof (induction m arbitrary: s)
  case Nil
  show ?case by simp
next
  case (Cons c m)
  show ?case
    using Cons.IH [of "putback s c"] putback_failed [OF Cons.prems, of c] by simp
qed

lemma match_loop_failed: "fail s \<Longrightarrow> snd (match_loop m p ch s) = s"
  by (cases p) simp_all

lemma match_loop_bounds:
  assumes "gpos s \<le> length (buf s)" and "match_loop m p ch s = (ok, s')"
  shows "buf s' = buf s \<and> gpos s - length m \<le> gpos s' \<and> gpos s' \<le> length (buf s)"
  using assms
proof (induction p arbitrary: m ch s)
  case Nil
  then show ?case by simp
next
  case (Cons c p)
  show ?case
  proof (cases "\<not> fail s \<and> \<not> eofbit s")
    case False
    then show ?thesis using Cons.prems by auto
  next
    case True
    obtain s1 ch1 where g: "get s ch = (s1, ch1)" by (cases "get s ch")
    have a1: "advanced s s1" using get_advanced [OF Cons.prems(1), of ch] g by simp
    show ?thesis
    proof (cases "ch1 = c")
      case False
      then have s': "s' = putback_all (putback s1 ch1) m"
        using Cons.prems(2) True g by simp
      have restored: "gpos s \<le> gpos (putback s1 ch1) \<and> gpos (putback s1 ch1) \<le> gpos s1
          \<and> buf (putback s1 ch1) = buf s1"
        using get_cases [OF g] putback_bounds [of s1 ch1] putback_failed [of s1 ch1] by auto
      have "gpos (putback s1 ch1) - length m \<le> gpos s'" "gpos s' \<le> gpos (putback s1 ch1)"
        "buf s' = buf (putback s1 ch1)"
        using putback_all_bounds [of "putback s1 ch1" m] s' by simp_all
      then show ?thesis using a1 restored by (auto simp: advanced_def)
    next
      case same: True
      then have "match_loop (c # m) p ch1 s1 = (ok, s')"
        using Cons.prems(2) True g by simp
      then have "buf s' = buf s1 \<and> gpos s1 - length (c # m) \<le> gpos s' \<and> gpos s' \<le> length (buf s1)"
        using Cons.IH [of s1 "c # m" ch1] a1 by (simp add: advanced_def)
      moreover have "gpos s1 = Suc (gpos s) \<or> s' = s1"
        using get_cases [OF g] match_loop_failed [of s1 "c # m" p ch1]
          \<open>match_loop (c # m) p ch1 s1 = (ok, s')\<close> by auto
      ultimately show ?thesis using a1 by (auto simp: advanced_def)
    qed
  qed
qed

lemma match_advanced:
  assumes "gpos s \<le> length (buf s)" and "match p s = (ok, s')"
  shows "advanced s s'"
proof -
  have w: "advanced s (ws s)" using assms(1) by (rule ws_advanced)
  then have "buf s' = buf (ws s) \<and> gpos (ws s) - length ([] :: string) \<le> gpos s'
      \<and> gpos s' \<le> length (buf (ws s))"
    using match_loop_bounds [of "ws s" "[]" p "CHR 0x00" ok s'] assms(2)
    by (simp add: match_def advanced_def)
  then show ?thesis using w by (auto simp: advanced_def)
qed

text \<open>A successful match of a token of one character, other than NUL, has read it.\<close>

lemma match_char_progress:
  assumes "gpos s \<le> length (buf s)" and "match [c] s = (True, s')" and "c \<noteq> CHR 0x00"
  shows "advanced s s' \<and> gpos s < gpos s'"
proof -
  have w: "advanced s (ws s)" using assms(1) by (rule ws_advanced)
  obtain s1 ch1 where g: "get (ws s) (CHR 0x00) = (s1, ch1)" by (cases "get (ws s) (CHR 0x00)")
  have live: "\<not> fail (ws s) \<and> \<not> eofbit (ws s)"
    using assms(2) by (auto simp: match_def split: if_splits)
  then have "ch1 = c \<and> s' = s1"
    using assms(2) g by (auto simp: match_def split: if_splits)
  then have "gpos (ws s) < length (buf (ws s)) \<and> s' = (ws s)\<lparr>gpos := Suc (gpos (ws s))\<rparr>"
    using get_cases [OF g] assms(3) by auto
  then show ?thesis using w by (auto simp: advanced_def)
qed

lemma parse_string_loop_advanced:
  "gpos s \<le> length (buf s) \<Longrightarrow> advanced s (fst (parse_string_loop d s ch v))"
proof (induction d s ch v rule: parse_string_loop.induct)
  case (1 d s ch v)
  show ?case
  proof (cases "\<not> eofbit s \<and> good s")
    case False
    then have "parse_string_loop d s ch v = (s, ch, v)"
      by (subst parse_string_loop.simps) auto
    then show ?thesis using "1.prems" by (simp add: advanced_refl)
  next
    case True
    obtain s1 ch1 where g1: "get s ch = (s1, ch1)" by (cases "get s ch")
    obtain s2 ch2 where g2: "get s1 ch1 = (s2, ch2)" by (cases "get s1 ch1")
    have a1: "advanced s s1" using get_advanced [OF "1.prems", of ch] g1 by simp
    have a2: "advanced s1 s2" using get_advanced [OF advanced_wf [OF a1], of ch1] g2 by simp
    show ?thesis
    proof (cases "ch1 = d")
      case True
      then show ?thesis using \<open>\<not> eofbit s \<and> good s\<close> g1 a1
        by (subst parse_string_loop.simps) simp
    next
      case nd: False
      show ?thesis
      proof (cases "ch1 = backslash")
        case b: True
        have "advanced s2 (fst (parse_string_loop d s2 ch2 (v @ unescape d ch2)))"
          using "1.IH"(1) [OF True g1 [symmetric] nd b g2 [symmetric]]
            advanced_wf [OF a2] by simp
        then have "advanced s (fst (parse_string_loop d s2 ch2 (v @ unescape d ch2)))"
          using a1 a2 advanced_trans by blast
        then show ?thesis using True g1 g2 nd b
          by (subst parse_string_loop.simps) simp
      next
        case nb: False
        have "advanced s1 (fst (parse_string_loop d s1 ch1 (v @ [ch1])))"
          using "1.IH"(2) [OF True g1 [symmetric] nd nb] advanced_wf [OF a1] by simp
        then have "advanced s (fst (parse_string_loop d s1 ch1 (v @ [ch1])))"
          using a1 advanced_trans by blast
        then show ?thesis using True g1 nd nb
          by (subst parse_string_loop.simps) simp
      qed
    qed
  qed
qed

lemma parse_string_advanced:
  assumes "gpos s \<le> length (buf s)" and "parse_string strict s v = (ok, s', v')"
  shows "advanced s s'"
proof -
  obtain ok1 s1 where m: "match [dquote] s = (ok1, s1)" by (cases "match [dquote] s")
  obtain s2 c where p: "peek s1 = (s2, c)" by (cases "peek s1")
  obtain s3 ch where g: "get s2 (CHR 0x00) = (s3, ch)" by (cases "get s2 (CHR 0x00)")
  have a1: "advanced s s1" using match_advanced [OF assms(1) m] .
  have a2: "advanced s1 s2" using peek_advanced [OF advanced_wf [OF a1]] p by simp
  have a3: "advanced s2 s3" using get_advanced [OF advanced_wf [OF a2], of "CHR 0x00"] g by simp
  have b1: "advanced s1 (fst (parse_string_loop dquote s1 (CHR 0x00) v))"
    using parse_string_loop_advanced [OF advanced_wf [OF a1]] .
  have b3: "advanced s3 (fst (parse_string_loop squote s3 ch v))"
    using parse_string_loop_advanced [OF advanced_wf [OF a3]] .
  have "s' = s1 \<or> s' = s2 \<or> s' = fst (parse_string_loop dquote s1 (CHR 0x00) v)
      \<or> s' = fst (parse_string_loop squote s3 ch v)"
    using assms(2) m p g
    by (auto simp: parse_string_def parse_string_body_def split: if_splits prod.splits)
  then show ?thesis
    using a1 a2 a3 b1 b3 advanced_trans by blast
qed

lemma float_loop_length:
  "length (snd (float_loop fm fd fs cs)) \<le> length cs"
proof (induction fm fd fs cs rule: float_loop.induct)
  case (1 fm fd fs)
  show ?case by simp
next
  case (2 fm fd fs c cs)
  show ?case
  proof (cases "is_digit c")
    case True
    then show ?thesis using "2.IH"(1) by (auto split: prod.splits)
  next
    case nd: False
    show ?thesis
    proof (cases "c = CHR ''.'' \<and> \<not> fd \<and> \<not> fs")
      case True
      then show ?thesis using nd "2.IH"(2) by (auto split: prod.splits)
    next
      case np: False
      show ?thesis
      proof (cases "(c = CHR ''e'' \<or> c = CHR ''E'') \<and> \<not> fs \<and> fm")
        case False
        then show ?thesis using nd np by auto
      next
        case e: True
        show ?thesis
        proof (cases cs)
          case Nil
          then show ?thesis using nd np e by auto
        next
          case (Cons d ds)
          show ?thesis
          proof (cases "is_sign d")
            case True
            have "length (snd (float_loop fm fd True ds)) \<le> length ds"
              using "2.IH"(3) [OF nd np e Cons True] .
            then show ?thesis using nd np e Cons True by (auto split: prod.splits)
          next
            case False
            have "length (snd (float_loop fm fd True (d # ds))) \<le> length (d # ds)"
              using "2.IH"(4) [OF nd np e Cons False] .
            then show ?thesis using nd np e Cons False by (auto split: prod.splits)
          qed
        qed
      qed
    qed
  qed
qed

lemma extract_float_length: "length (snd (extract_float cs)) \<le> length cs"
proof -
  obtain sg t1 where a: "float_sign cs = (sg, t1)" by (cases "float_sign cs")
  obtain z t2 where b: "float_zeros t1 = (z, t2)" by (cases "float_zeros t1")
  have "length t1 \<le> length cs"
    using a by (cases cs) (auto split: if_splits)
  moreover have "length t2 \<le> length t1"
    using b length_dropWhile_le [of "\<lambda>d. d = CHR ''0''" t1]
    by (auto simp: float_zeros_def split: list.splits if_splits)
  moreover obtain x t3 where c: "float_loop (z \<noteq> []) False False t2 = (x, t3)"
    by (cases "float_loop (z \<noteq> []) False False t2")
  moreover have "length t3 \<le> length t2"
    using float_loop_length [of "z \<noteq> []" False False t2] c by simp
  ultimately show ?thesis using a b
    by (simp add: extract_float_def)
qed

lemma sentry_skipws_advanced:
  "gpos s \<le> length (buf s) \<Longrightarrow> advanced s (snd (sentry_skipws s))"
proof -
  assume wf: "gpos s \<le> length (buf s)"
  have "length (takeWhile isspace (drop (gpos s) (buf s))) \<le> length (buf s) - gpos s"
    using length_takeWhile_le [of isspace "drop (gpos s) (buf s)"] by simp
  then show ?thesis using wf
    by (auto simp: sentry_skipws_def remaining_def advanced_def Let_def)
qed

lemma extract_double_advanced:
  assumes "gpos s \<le> length (buf s)"
  shows "advanced s (fst (extract_double strtod s))"
proof -
  obtain ok s1 where a: "sentry_skipws s = (ok, s1)" by (cases "sentry_skipws s")
  have a1: "advanced s s1" using sentry_skipws_advanced [OF assms] a by simp
  obtain field rest where e: "extract_float (remaining s1) = (field, rest)"
    by (cases "extract_float (remaining s1)")
  have "length rest \<le> length (buf s1) - gpos s1"
    using extract_float_length [of "remaining s1"] e by (simp add: remaining_def)
  then have "advanced s (s1\<lparr>gpos := length (buf s1) - length rest\<rparr>)"
    using a1 by (auto simp: advanced_def)
  then show ?thesis using a a1 e
    by (cases rest) (auto simp: extract_double_def Let_def)
qed

lemma parse_number_advanced:
  assumes "gpos s \<le> length (buf s)" and "parse_number strtod s = (ok, s', v)"
  shows "advanced s s'"
proof -
  have a1: "advanced s (ws s)" using assms(1) by (rule ws_advanced)
  have "advanced (ws s) (fst (extract_double strtod (ws s)))"
    using extract_double_advanced [OF advanced_wf [OF a1]] .
  then have "advanced s (fst (extract_double strtod (ws s)))"
    using a1 advanced_trans by blast
  then show ?thesis using assms(2)
    by (auto simp: parse_number_def split: prod.splits if_splits)
qed

lemma parse_bool_advanced:
  assumes "gpos s \<le> length (buf s)" and "parse_bool s = (ok, s', v)"
  shows "advanced s s'"
proof -
  obtain ok1 s1 where a: "match ''true'' s = (ok1, s1)" by (cases "match ''true'' s")
  obtain ok2 s2 where b: "match ''false'' s1 = (ok2, s2)" by (cases "match ''false'' s1")
  have a1: "advanced s s1" using match_advanced [OF assms(1) a] .
  have a2: "advanced s1 s2" using match_advanced [OF advanced_wf [OF a1] b] .
  have "s' = s1 \<or> s' = s2"
    using assms(2) a b by (auto simp: parse_bool_def split: if_splits)
  then show ?thesis using a1 a2 advanced_trans by blast
qed

lemma parse_null_advanced:
  assumes "gpos s \<le> length (buf s)" and "parse_null strict s = (ok, s')"
  shows "advanced s s'"
proof -
  obtain ok1 s1 where a: "match ''null'' s = (ok1, s1)" by (cases "match ''null'' s")
  obtain s2 c where p: "peek s1 = (s2, c)" by (cases "peek s1")
  have a1: "advanced s s1" using match_advanced [OF assms(1) a] .
  have a2: "advanced s1 s2" using peek_advanced [OF advanced_wf [OF a1]] p by simp
  have "s' = s1 \<or> s' = s2"
    using assms(2) a p by (auto simp: parse_null_def split: if_splits)
  then show ?thesis using a1 a2 advanced_trans by blast
qed

subsection \<open>The loops return\<close>

text \<open>Every iteration that goes on has matched a comma, so it has read at least one
  character: a loop that starts with fewer unread characters than its budget returns,
  provided the value parser returns on every stream with no more unread characters.\<close>

lemma progress_unread:
  "advanced s s' \<Longrightarrow> gpos s < gpos s' \<Longrightarrow> unread s' < unread s"
  by (auto simp: advanced_def unread_def)

lemma Array_loop_returns:
  assumes vp: "\<And>s val. gpos s \<le> length (buf s) \<Longrightarrow> unread s < m \<Longrightarrow>
                 \<exists>ok s' v. vp s val = Some (ok, s', v) \<and> advanced s s'"
  shows "gpos s \<le> length (buf s) \<Longrightarrow> unread s < m \<Longrightarrow> unread s < k \<Longrightarrow>
         \<exists>s' a. Array_loop k vp s acc = Some (s', a) \<and> advanced s s'"
proof (induction k arbitrary: s acc)
  case 0
  then show ?case by simp
next
  case (Suc k)
  obtain ok1 s1 v where r: "vp s Invalid_value = Some (ok1, s1, v)" and a1: "advanced s s1"
    using vp [OF Suc.prems(1,2)] by blast
  obtain ok2 s2 where c: "match '','' s1 = (ok2, s2)" by (cases "match '','' s1")
  have a2: "advanced s1 s2" using match_advanced [OF advanced_wf [OF a1] c] .
  show ?case
  proof (cases "ok1 \<and> ok2")
    case False
    then show ?thesis using r c a1 a2 advanced_trans
      by (auto simp: Array_loop_body_def)
  next
    case True
    then have "gpos s1 < gpos s2"
      using match_char_progress [OF advanced_wf [OF a1], of "CHR '',''" s2] c by simp
    then have "unread s2 < unread s1" using a2 by (rule progress_unread [rotated])
    then have less: "unread s2 < m" "unread s2 < k"
      using advanced_unread [OF a1] Suc.prems(2,3) by simp_all
    obtain s' a where l: "Array_loop k vp s2 (acc @ [v]) = Some (s', a)" and a3: "advanced s2 s'"
      using Suc.IH [OF advanced_wf [OF a2] less] by blast
    have "advanced s s'" using a1 a2 a3 advanced_trans by blast
    then show ?thesis using True r c l by (simp add: Array_loop_body_def)
  qed
qed

lemma Object_loop_returns:
  assumes vp: "\<And>s val. gpos s \<le> length (buf s) \<Longrightarrow> unread s < m \<Longrightarrow>
                 \<exists>ok s' v. vp s val = Some (ok, s', v) \<and> advanced s s'"
  shows "gpos s \<le> length (buf s) \<Longrightarrow> unread s < m \<Longrightarrow> unread s < k \<Longrightarrow>
         \<exists>ok s' ob. Object_loop k strict vp s value_map = Some (ok, s', ob) \<and> advanced s s'"
proof (induction k arbitrary: s value_map)
  case 0
  then show ?case by simp
next
  case (Suc k)
  obtain ok1 s1 key where a: "parse_string strict s [] = (ok1, s1, key)"
    by (cases "parse_string strict s []")
  have a1: "advanced s s1" using parse_string_advanced [OF Suc.prems(1) a] .
  obtain s1p c where p: "peek s1 = (s1p, c)" by (cases "peek s1")
  have a1p: "advanced s s1p"
    using peek_advanced [OF advanced_wf [OF a1]] p a1 advanced_trans by fastforce
  obtain ok2 s2 where b: "match '':'' s1 = (ok2, s2)" by (cases "match '':'' s1")
  have a2: "advanced s s2"
    using match_advanced [OF advanced_wf [OF a1] b] a1 advanced_trans by blast
  show ?case
  proof (cases "ok1 \<and> ok2")
    case False
    then show ?thesis using a p b a1 a1p a2
      by (auto simp: Object_loop_body_def)
  next
    case go: True
    have "unread s2 < m" using advanced_unread [OF a2] Suc.prems(2) by simp
    then obtain ok3 s3 v where r: "vp s2 Invalid_value = Some (ok3, s3, v)"
      and a3': "advanced s2 s3"
      using vp [OF advanced_wf [OF a2]] by blast
    have a3: "advanced s s3" using a2 a3' advanced_trans by blast
    obtain ok4 s4 where d: "match '','' s3 = (ok4, s4)" by (cases "match '','' s3")
    have a4': "advanced s3 s4" using match_advanced [OF advanced_wf [OF a3] d] .
    have a4: "advanced s s4" using a3 a4' advanced_trans by blast
    show ?thesis
    proof (cases "ok3 \<and> ok4")
      case False
      then show ?thesis using go a b r d a3 a4
        by (auto simp: Object_loop_body_def)
    next
      case True
      then have "gpos s3 < gpos s4"
        using match_char_progress [OF advanced_wf [OF a3], of "CHR '',''" s4] d by simp
      then have "unread s4 < unread s3" using a4' by (rule progress_unread [rotated])
      then have less: "unread s4 < m" "unread s4 < k"
        using advanced_unread [OF a3] Suc.prems(2,3) by simp_all
      obtain ok s' ob where
        l: "Object_loop k strict vp s4 (map_assign key v value_map) = Some (ok, s', ob)"
        and a5: "advanced s4 s'"
        using Suc.IH [OF advanced_wf [OF a4] less] by blast
      have "advanced s s'" using a4 a5 advanced_trans by blast
      then show ?thesis using go True a b r d l by (simp add: Object_loop_body_def)
    qed
  qed
qed

subsection \<open>\<open>Value_parse\<close> returns\<close>

lemma Array_parse_body_returns:
  assumes vp: "\<And>s val. gpos s \<le> length (buf s) \<Longrightarrow> unread s < m \<Longrightarrow>
                 \<exists>ok s' v. vp s val = Some (ok, s', v) \<and> advanced s s'"
    and wf: "gpos s \<le> length (buf s)" and "unread s \<le> m" and "m \<le> k"
  shows "\<exists>ok s' a. Array_parse_body (Array_loop k vp) s = Some (ok, s', a) \<and> advanced s s'"
proof -
  obtain ok1 s1 where a: "match ''['' s = (ok1, s1)" by (cases "match ''['' s")
  have a1: "advanced s s1" using match_advanced [OF wf a] .
  show ?thesis
  proof (cases ok1)
    case False
    then show ?thesis using a a1 by (auto simp: Array_parse_body_def)
  next
    case True
    then have "gpos s < gpos s1"
      using match_char_progress [OF wf, of "CHR ''[''" s1] a by simp
    then have "unread s1 < unread s" using a1 by (rule progress_unread [rotated])
    then have less: "unread s1 < m" "unread s1 < k" using assms(3,4) by simp_all
    obtain s2 vs where l: "Array_loop k vp s1 [] = Some (s2, vs)" and a2: "advanced s1 s2"
      using Array_loop_returns [of m vp s1 k "[]"] vp advanced_wf [OF a1] less by blast
    obtain ok2 s3 where c: "match '']'' s2 = (ok2, s3)" by (cases "match '']'' s2")
    have a3: "advanced s2 s3" using match_advanced [OF advanced_wf [OF a2] c] .
    have "advanced s s3" using a1 a2 a3 advanced_trans by blast
    then show ?thesis using True a l c by (simp add: Array_parse_body_def)
  qed
qed

lemma Object_parse_body_returns:
  assumes vp: "\<And>s val. gpos s \<le> length (buf s) \<Longrightarrow> unread s < m \<Longrightarrow>
                 \<exists>ok s' v. vp s val = Some (ok, s', v) \<and> advanced s s'"
    and wf: "gpos s \<le> length (buf s)" and "unread s \<le> m" and "m \<le> k"
  shows "\<exists>ok s' ob. Object_parse_body (Object_loop k strict vp) s = Some (ok, s', ob)
           \<and> advanced s s'"
proof -
  obtain ok1 s1 where a: "match ''{'' s = (ok1, s1)" by (cases "match ''{'' s")
  have a1: "advanced s s1" using match_advanced [OF wf a] .
  obtain ok2 s2 where b: "match ''}'' s1 = (ok2, s2)" by (cases "match ''}'' s1")
  have a2': "advanced s1 s2" using match_advanced [OF advanced_wf [OF a1] b] .
  have a2: "advanced s s2" using a1 a2' advanced_trans by blast
  show ?thesis
  proof (cases "ok1 \<and> \<not> ok2")
    case False
    then show ?thesis using a b a1 a2 by (auto simp: Object_parse_body_def)
  next
    case True
    then have "gpos s < gpos s1"
      using match_char_progress [OF wf, of "CHR ''{''" s1] a by simp
    then have "unread s1 < unread s" using a1 by (rule progress_unread [rotated])
    then have less: "unread s2 < m" "unread s2 < k"
      using assms(3,4) advanced_unread [OF a2'] by simp_all
    obtain go s3 ob where l: "Object_loop k strict vp s2 [] = Some (go, s3, ob)"
      and a3': "advanced s2 s3"
      using Object_loop_returns [of m vp s2 k strict "[]"] vp advanced_wf [OF a2] less by blast
    have a3: "advanced s s3" using a2 a3' advanced_trans by blast
    obtain ok3 s4 where c: "match ''}'' s3 = (ok3, s4)" by (cases "match ''}'' s3")
    have "advanced s3 s4" using match_advanced [OF advanced_wf [OF a3] c] .
    then have "advanced s s4" using a3 advanced_trans by blast
    then show ?thesis using True a b l c a3 by (auto simp: Object_parse_body_def)
  qed
qed

lemma Value_parse_body_returns:
  assumes ap: "\<And>s. gpos s \<le> length (buf s) \<Longrightarrow> unread s \<le> m \<Longrightarrow>
                 \<exists>ok s' a. array_parse s = Some (ok, s', a) \<and> advanced s s'"
    and op: "\<And>s. gpos s \<le> length (buf s) \<Longrightarrow> unread s \<le> m \<Longrightarrow>
                 \<exists>ok s' ob. object_parse s = Some (ok, s', ob) \<and> advanced s s'"
    and wf: "gpos s \<le> length (buf s)" and "unread s \<le> m"
  shows "\<exists>ok s' v. Value_parse_body strict strtod array_parse object_parse s val = Some (ok, s', v)
           \<and> advanced s s'"
proof -
  obtain ok1 s1 str where a: "parse_string strict s [] = (ok1, s1, str)"
    by (cases "parse_string strict s []")
  obtain ok2 s2 n where b: "parse_number strtod s1 = (ok2, s2, n)"
    by (cases "parse_number strtod s1")
  obtain ok3 s3 bv where c: "parse_bool s2 = (ok3, s3, bv)"
    by (cases "parse_bool s2")
  obtain ok4 s4 where d: "parse_null strict s3 = (ok4, s4)"
    by (cases "parse_null strict s3")
  obtain s5 ch where e: "peek s4 = (s5, ch)"
    by (cases "peek s4")
  have a1: "advanced s s1" using parse_string_advanced [OF wf a] .
  have a2: "advanced s s2"
    using parse_number_advanced [OF advanced_wf [OF a1] b] a1 advanced_trans by blast
  have a3: "advanced s s3"
    using parse_bool_advanced [OF advanced_wf [OF a2] c] a2 advanced_trans by blast
  have a4: "advanced s s4"
    using parse_null_advanced [OF advanced_wf [OF a3] d] a3 advanced_trans by blast
  have a5: "advanced s s5"
    using peek_advanced [OF advanced_wf [OF a4]] e a4 advanced_trans by fastforce
  define ar where "ar = (if ch = Some (CHR ''['') then array_parse s5 else Some (False, s5, []))"
  have "\<exists>ok5 s6 arr. ar = Some (ok5, s6, arr) \<and> advanced s5 s6"
    using ap [OF advanced_wf [OF a5]] advanced_unread [OF a5] assms(4)
      advanced_refl [OF advanced_wf [OF a5]]
    by (auto simp: ar_def)
  then obtain ok5 s6 arr where ar: "ar = Some (ok5, s6, arr)" and a6': "advanced s5 s6"
    by blast
  have a6: "advanced s s6" using a5 a6' advanced_trans by blast
  obtain ok6 s7 ob where ob: "object_parse s6 = Some (ok6, s7, ob)" and a7': "advanced s6 s7"
    using op [OF advanced_wf [OF a6]] advanced_unread [OF a6] assms(4) by fastforce
  have a7: "advanced s s7" using a6 a7' advanced_trans by blast
  have body: "Value_parse_body strict strtod array_parse object_parse s val =
     (if ok1 then Some (True, s1, String_value str)
      else if ok2 then Some (True, s2, Number_value (the n))
      else if ok3 then Some (True, s3, Bool_value (the bv))
      else if ok4 then Some (True, s4, Null_value)
      else (case ar of
              None \<Rightarrow> None
            | Some (ok5, s6, arr) \<Rightarrow>
                if ok5 then Some (True, s6, Array_value arr)
                else (case object_parse s6 of
                        None \<Rightarrow> None
                      | Some (ok6, s7, ob) \<Rightarrow>
                          if ok6 then Some (True, s7, Object_value ob)
                          else Some (False, s7, reset val))))"
    by (simp add: Value_parse_body_def a b c d e ar_def)
  show ?thesis
    unfolding body using ar ob a1 a2 a3 a4 a6 a7 by auto
qed

text \<open>With a budget of one more than the number of unread characters, \<open>Value_parse\<close>
  returns on every stream whose read position is inside its buffer.\<close>

theorem Value_parse_returns:
  "gpos s \<le> length (buf s) \<Longrightarrow> unread s \<le> n \<Longrightarrow>
     \<exists>ok s' v. Value_parse (Suc n) strict strtod s val = Some (ok, s', v) \<and> advanced s s'"
proof (induction n arbitrary: s val)
  case 0
  have vp: "\<exists>ok s' v. Value_parse 0 strict strtod s val = Some (ok, s', v) \<and> advanced s s'"
    if "gpos s \<le> length (buf s)" "unread s < 0" for s and val :: "'a Value"
    using that by simp
  have ap: "\<exists>ok s' a. Array_parse_body (Array_loop 0 (Value_parse 0 strict strtod)) t
             = Some (ok, s', a) \<and> advanced t s'"
    if "gpos t \<le> length (buf t)" "unread t \<le> 0" for t
    using that vp by (intro Array_parse_body_returns [where m = 0]) auto
  have op: "\<exists>ok s' ob. Object_parse_body (Object_loop 0 strict (Value_parse 0 strict strtod)) t
             = Some (ok, s', ob) \<and> advanced t s'"
    if "gpos t \<le> length (buf t)" "unread t \<le> 0" for t
    using that vp by (intro Object_parse_body_returns [where m = 0]) auto
  show ?case
    using Value_parse_body_returns [where m = 0 and s = s and strict = strict
        and strtod = strtod and val = val
        and array_parse = "Array_parse_body (Array_loop 0 (Value_parse 0 strict strtod))"
        and object_parse = "Object_parse_body (Object_loop 0 strict (Value_parse 0 strict strtod))"]
      ap op "0.prems"
    by simp
next
  case (Suc n)
  have vp: "\<exists>ok s' v. Value_parse (Suc n) strict strtod s val = Some (ok, s', v) \<and> advanced s s'"
    if "gpos s \<le> length (buf s)" "unread s < Suc n" for s val
    using that Suc.IH [of s val] by simp
  have ap: "\<exists>ok s' a. Array_parse_body (Array_loop (Suc n) (Value_parse (Suc n) strict strtod)) t
             = Some (ok, s', a) \<and> advanced t s'"
    if "gpos t \<le> length (buf t)" "unread t \<le> Suc n" for t
    using that vp by (intro Array_parse_body_returns [where m = "Suc n"]) auto
  have op: "\<exists>ok s' ob. Object_parse_body
               (Object_loop (Suc n) strict (Value_parse (Suc n) strict strtod)) t
             = Some (ok, s', ob) \<and> advanced t s'"
    if "gpos t \<le> length (buf t)" "unread t \<le> Suc n" for t
    using that vp by (intro Object_parse_body_returns [where m = "Suc n"]) auto
  have "\<exists>ok s' v. Value_parse_body strict strtod
          (Array_parse_body (Array_loop (Suc n) (Value_parse (Suc n) strict strtod)))
          (Object_parse_body (Object_loop (Suc n) strict (Value_parse (Suc n) strict strtod)))
          s val = Some (ok, s', v) \<and> advanced s s'"
    using Value_parse_body_returns [where m = "Suc n" and s = s and strict = strict
        and strtod = strtod and val = val
        and array_parse = "Array_parse_body (Array_loop (Suc n) (Value_parse (Suc n) strict strtod))"
        and object_parse = "Object_parse_body
               (Object_loop (Suc n) strict (Value_parse (Suc n) strict strtod))"]
      ap op Suc.prems
    by blast
  then show ?case
    by (simp only: Value_parse.simps(2) [of "Suc n"])
qed

subsection \<open>A larger budget changes nothing\<close>

text \<open>A result obtained with some budget is the result with any larger one.\<close>

lemma Array_loop_mono:
  assumes vp: "\<And>s val r. vp s val = Some r \<Longrightarrow> vp' s val = Some r"
  shows "Array_loop k vp s acc = Some r \<Longrightarrow> k \<le> k' \<Longrightarrow> Array_loop k' vp' s acc = Some r"
proof (induction k arbitrary: k' s acc)
  case 0
  then show ?case by simp
next
  case (Suc k)
  obtain j where k': "k' = Suc j" and j: "k \<le> j" using Suc.prems(2) by (cases k') auto
  obtain ok1 s1 v where r1: "vp s Invalid_value = Some (ok1, s1, v)"
    using Suc.prems(1) by (cases "vp s Invalid_value") (auto simp: Array_loop_body_def)
  have r1': "vp' s Invalid_value = Some (ok1, s1, v)" using vp [OF r1] .
  obtain ok2 s2 where c: "match '','' s1 = (ok2, s2)" by (cases "match '','' s1")
  show ?case
  proof (cases "ok1 \<and> ok2")
    case False
    then show ?thesis using Suc.prems(1) r1 r1' c k' by (auto simp: Array_loop_body_def)
  next
    case True
    then have "Array_loop k vp s2 (acc @ [v]) = Some r"
      using Suc.prems(1) r1 c by (simp add: Array_loop_body_def)
    then have "Array_loop j vp' s2 (acc @ [v]) = Some r" using Suc.IH j by blast
    then show ?thesis using True r1' c k' by (simp add: Array_loop_body_def)
  qed
qed

lemma Object_loop_mono:
  assumes vp: "\<And>s val r. vp s val = Some r \<Longrightarrow> vp' s val = Some r"
  shows "Object_loop k strict vp s m = Some r \<Longrightarrow> k \<le> k' \<Longrightarrow>
         Object_loop k' strict vp' s m = Some r"
proof (induction k arbitrary: k' s m)
  case 0
  then show ?case by simp
next
  case (Suc k)
  obtain j where k': "k' = Suc j" and j: "k \<le> j" using Suc.prems(2) by (cases k') auto
  obtain ok1 s1 key where a: "parse_string strict s [] = (ok1, s1, key)"
    by (cases "parse_string strict s []")
  obtain s1p c where p: "peek s1 = (s1p, c)" by (cases "peek s1")
  obtain ok2 s2 where b: "match '':'' s1 = (ok2, s2)" by (cases "match '':'' s1")
  show ?case
  proof (cases "ok1 \<and> ok2")
    case False
    then show ?thesis using Suc.prems(1) a p b k' by (auto simp: Object_loop_body_def)
  next
    case go: True
    obtain ok3 s3 v where r3: "vp s2 Invalid_value = Some (ok3, s3, v)"
      using Suc.prems(1) a b go
      by (cases "vp s2 Invalid_value") (auto simp: Object_loop_body_def)
    have r3': "vp' s2 Invalid_value = Some (ok3, s3, v)" using vp [OF r3] .
    obtain ok4 s4 where d: "match '','' s3 = (ok4, s4)" by (cases "match '','' s3")
    show ?thesis
    proof (cases "ok3 \<and> ok4")
      case False
      then show ?thesis using Suc.prems(1) a b go r3 r3' d k'
        by (auto simp: Object_loop_body_def)
    next
      case True
      then have "Object_loop k strict vp s4 (map_assign key v m) = Some r"
        using Suc.prems(1) a b go r3 d by (simp add: Object_loop_body_def)
      then have "Object_loop j strict vp' s4 (map_assign key v m) = Some r"
        using Suc.IH j by blast
      then show ?thesis using True a b go r3' d k' by (simp add: Object_loop_body_def)
    qed
  qed
qed

lemma Array_parse_body_mono:
  assumes "\<And>s acc r. loop s acc = Some r \<Longrightarrow> loop' s acc = Some r"
    and "Array_parse_body loop s = Some r"
  shows "Array_parse_body loop' s = Some r"
proof -
  obtain ok1 s1 where a: "match ''['' s = (ok1, s1)" by (cases "match ''['' s")
  show ?thesis
  proof (cases ok1)
    case False
    then show ?thesis using assms(2) a by (simp add: Array_parse_body_def)
  next
    case True
    then obtain q where l: "loop s1 [] = Some q"
      using assms(2) a by (cases "loop s1 []") (auto simp: Array_parse_body_def)
    then have "loop' s1 [] = Some q" using assms(1) by blast
    then show ?thesis using assms(2) a True l by (simp add: Array_parse_body_def)
  qed
qed

lemma Object_parse_body_mono:
  assumes "\<And>s m r. loop s m = Some r \<Longrightarrow> loop' s m = Some r"
    and "Object_parse_body loop s = Some r"
  shows "Object_parse_body loop' s = Some r"
proof -
  obtain ok1 s1 where a: "match ''{'' s = (ok1, s1)" by (cases "match ''{'' s")
  obtain ok2 s2 where b: "match ''}'' s1 = (ok2, s2)" by (cases "match ''}'' s1")
  show ?thesis
  proof (cases "ok1 \<and> \<not> ok2")
    case False
    then show ?thesis using assms(2) a b by (auto simp: Object_parse_body_def)
  next
    case True
    then obtain q where l: "loop s2 [] = Some q"
      using assms(2) a b by (cases "loop s2 []") (auto simp: Object_parse_body_def)
    then have "loop' s2 [] = Some q" using assms(1) by blast
    then show ?thesis using assms(2) a b True l by (simp add: Object_parse_body_def)
  qed
qed

lemma Value_parse_body_mono:
  assumes ap: "\<And>s r. array_parse s = Some r \<Longrightarrow> array_parse' s = Some r"
    and op: "\<And>s r. object_parse s = Some r \<Longrightarrow> object_parse' s = Some r"
    and res: "Value_parse_body strict strtod array_parse object_parse s val = Some r"
  shows "Value_parse_body strict strtod array_parse' object_parse' s val = Some r"
proof -
  obtain ok1 s1 str where a: "parse_string strict s [] = (ok1, s1, str)"
    by (cases "parse_string strict s []")
  obtain ok2 s2 n where b: "parse_number strtod s1 = (ok2, s2, n)"
    by (cases "parse_number strtod s1")
  obtain ok3 s3 bv where c: "parse_bool s2 = (ok3, s3, bv)"
    by (cases "parse_bool s2")
  obtain ok4 s4 where d: "parse_null strict s3 = (ok4, s4)"
    by (cases "parse_null strict s3")
  obtain s5 ch where e: "peek s4 = (s5, ch)"
    by (cases "peek s4")
  show ?thesis
  proof (cases "ok1 \<or> ok2 \<or> ok3 \<or> ok4")
    case True
    then show ?thesis using res a b c d by (auto simp: Value_parse_body_def)
  next
    case False
    define ar where "ar = (if ch = Some (CHR ''['') then array_parse s5 else Some (False, s5, []))"
    define ar' where "ar' = (if ch = Some (CHR ''['') then array_parse' s5 else Some (False, s5, []))"
    obtain ok5 s6 arr where ar: "ar = Some (ok5, s6, arr)"
      using res False a b c d e
      by (cases ar) (auto simp: Value_parse_body_def ar_def split: if_splits)
    have ar': "ar' = Some (ok5, s6, arr)"
      using ar ap by (auto simp: ar_def ar'_def split: if_splits)
    show ?thesis
    proof (cases ok5)
      case True
      then show ?thesis using res False a b c d e ar ar'
        by (auto simp: Value_parse_body_def ar_def ar'_def split: if_splits)
    next
      case no: False
      then obtain q where ob: "object_parse s6 = Some q"
        using res False a b c d e ar
        by (cases "object_parse s6") (auto simp: Value_parse_body_def ar_def split: if_splits)
      then have "object_parse' s6 = Some q" using op by blast
      then show ?thesis using res False a b c d e ar ar' no ob
        by (auto simp: Value_parse_body_def ar_def ar'_def split: if_splits)
    qed
  qed
qed


theorem Value_parse_mono:
  "Value_parse k strict strtod s val = Some r \<Longrightarrow> k \<le> k' \<Longrightarrow>
     Value_parse k' strict strtod s val = Some r"
proof (induction k arbitrary: k' s val r)
  case 0
  then show ?case by simp
next
  case (Suc k)
  obtain j where k': "k' = Suc j" and j: "k \<le> j" using Suc.prems(2) by (cases k') auto
  have vp: "Value_parse j strict strtod s val = Some r"
    if "Value_parse k strict strtod s val = Some r" for s val r
    using Suc.IH [OF that j] .
  have al: "Array_loop j (Value_parse j strict strtod) s acc = Some r"
    if "Array_loop k (Value_parse k strict strtod) s acc = Some r" for s acc r
    using Array_loop_mono [where vp = "Value_parse k strict strtod"
        and vp' = "Value_parse j strict strtod", OF vp that j] .
  have ol: "Object_loop j strict (Value_parse j strict strtod) s m = Some r"
    if "Object_loop k strict (Value_parse k strict strtod) s m = Some r" for s m r
    using Object_loop_mono [where vp = "Value_parse k strict strtod"
        and vp' = "Value_parse j strict strtod", OF vp that j] .
  have ap: "Array_parse_body (Array_loop j (Value_parse j strict strtod)) s = Some r"
    if "Array_parse_body (Array_loop k (Value_parse k strict strtod)) s = Some r" for s r
    using Array_parse_body_mono [where loop = "Array_loop k (Value_parse k strict strtod)"
        and loop' = "Array_loop j (Value_parse j strict strtod)", OF al that] .
  have op: "Object_parse_body (Object_loop j strict (Value_parse j strict strtod)) s = Some r"
    if "Object_parse_body (Object_loop k strict (Value_parse k strict strtod)) s = Some r" for s r
    using Object_parse_body_mono [where loop = "Object_loop k strict (Value_parse k strict strtod)"
        and loop' = "Object_loop j strict (Value_parse j strict strtod)", OF ol that] .
  have "Value_parse_body strict strtod
          (Array_parse_body (Array_loop j (Value_parse j strict strtod)))
          (Object_parse_body (Object_loop j strict (Value_parse j strict strtod))) s val = Some r"
    using Value_parse_body_mono
      [where array_parse = "Array_parse_body (Array_loop k (Value_parse k strict strtod))"
        and object_parse = "Object_parse_body (Object_loop k strict (Value_parse k strict strtod))",
        OF ap op] Suc.prems(1)
    by simp
  then show ?case by (simp add: k')
qed

text \<open>So the parsers return on every document, with any budget above its length.\<close>

lemma Value_parse_total:
  assumes "gpos s \<le> length (buf s)" and "unread s < fuel"
  shows "\<exists>ok s' v. Value_parse fuel strict strtod s val = Some (ok, s', v) \<and> advanced s s'"
proof -
  obtain ok s' v where r: "Value_parse (Suc (unread s)) strict strtod s val = Some (ok, s', v)"
    and a: "advanced s s'"
    using Value_parse_returns [OF assms(1), of "unread s" strict strtod val] by auto
  have "Value_parse fuel strict strtod s val = Some (ok, s', v)"
    using Value_parse_mono [OF r] assms(2) by simp
  then show ?thesis using a by blast
qed

lemma Object_parse_total:
  assumes "gpos s \<le> length (buf s)" and "unread s < fuel"
  shows "\<exists>ok s' ob. Object_parse fuel strict strtod s = Some (ok, s', ob) \<and> advanced s s'"
proof -
  have vp: "\<exists>ok s' v. Value_parse fuel strict strtod s val = Some (ok, s', v) \<and> advanced s s'"
    if "gpos s \<le> length (buf s)" "unread s < fuel" for s val
    using that by (rule Value_parse_total)
  show ?thesis
    unfolding Object_parse_def
    using Object_parse_body_returns [where vp = "Value_parse fuel strict strtod" and m = fuel
        and k = fuel and s = s and strict = strict, OF vp assms(1)] assms(2)
    by simp
qed

lemma Array_parse_total:
  assumes "gpos s \<le> length (buf s)" and "unread s < fuel"
  shows "\<exists>ok s' a. Array_parse fuel strict strtod s = Some (ok, s', a) \<and> advanced s s'"
proof -
  have vp: "\<exists>ok s' v. Value_parse fuel strict strtod s val = Some (ok, s', v) \<and> advanced s s'"
    if "gpos s \<le> length (buf s)" "unread s < fuel" for s val
    using that by (rule Value_parse_total)
  show ?thesis
    unfolding Array_parse_def
    using Array_parse_body_returns [where vp = "Value_parse fuel strict strtod" and m = fuel
        and k = fuel and s = s, OF vp assms(1)] assms(2)
    by simp
qed

lemma document_parse_returns:
  assumes "length document < fuel"
  shows "\<exists>ok s' v. Value_parse fuel strict strtod (istream_of document) val = Some (ok, s', v)"
    and "\<exists>ok s' ob. Object_parse fuel strict strtod (istream_of document) = Some (ok, s', ob)"
    and "\<exists>ok s' a. Array_parse fuel strict strtod (istream_of document) = Some (ok, s', a)"
  using Value_parse_total [of "istream_of document" fuel strict strtod val]
    Object_parse_total [of "istream_of document" fuel strict strtod]
    Array_parse_total [of "istream_of document" fuel strict strtod] assms
  by (auto simp: istream_of_def unread_def)

section \<open>The claims\<close>

lemmas stream_defs = istream_of_def good_def fail_def clear_def remaining_def sgetc_def
  sentry_def get_def peek_def putback_def isspace_def ws_def match_def

lemmas scalar_defs = parse_string_def parse_string_body_def parse_string_loop.simps unescape_def
  parse_bool_def parse_null_def parse_number_def extract_double_def sentry_skipws_def
  extract_float_def float_zeros_def is_digit_def is_sign_def

lemmas parser_defs = Value_parse_body_def Array_parse_body_def Array_loop_body_def
  Object_parse_body_def Object_loop_body_def Array_parse_def Object_parse_def reset_def

subsection \<open>C2: a failed match and the stream position\<close>

text \<open>
  C2 says that a failed \<open>match\<close>, by a character mismatch or by a premature end of
  the stream, has pushed back every character it consumed and returns false. For a
  character mismatch this is \<open>match_mismatch\<close> above: the stream is the one left by the
  whitespace skip. At a premature end it is not so. On the stream \<open>tr\<close>, \<open>match\<close> of
  \<open>true\<close> reads \<open>t\<close> and \<open>r\<close>; the third \<^verbatim>\<open>get\<close> extracts nothing and sets
  \<^verbatim>\<open>failbit\<close>, \<^verbatim>\<open>ch\<close> still holds \<open>r\<close>, which differs from \<open>u\<close>, and every
  \<^verbatim>\<open>putback\<close> that follows is refused by the failed stream. The call returns false with
  the read position at 2, where the whitespace skip had left it at 0.
\<close>

theorem match_premature_end_not_restored:
  "match ''true'' (istream_of ''tr'') =
     (False, \<lparr>buf = ''tr'', gpos = 2, eofbit = False, failbit = True, badbit = False\<rparr>)
   \<and> ws (istream_of ''tr'') = istream_of ''tr''"
  by (simp add: stream_defs)

text \<open>The same unchecked \<^verbatim>\<open>get\<close> lets a pattern whose next character repeats the last
  one read match a stream that ends too early: \<open>null\<close> matches \<open>nul\<close>.\<close>

lemma match_premature_end_accepted:
  "fst (match ''null'' (istream_of ''nul'')) = True"
  by (simp add: stream_defs)

subsection \<open>C5: the trailing comma of an array\<close>

text \<open>
  C5: parsing \<open>[1,2,]\<close> succeeds in strict and in lenient mode and gives the array of
  the numbers 1 and 2. After the second comma the element parse fails and leaves the
  stream where it was, the loop ends, and the closing bracket is matched. The numbers
  are what the platform's conversion makes of the fields \<open>1\<close> and \<open>2\<close>.
\<close>

theorem array_trailing_comma:
  assumes "strtod ''1'' = Some one" and "strtod ''2'' = Some two"
  shows "Array_parse (Suc (Suc (Suc fuel))) strict strtod (istream_of ''[1,2,]'')
           = Some (True, stream_at ''[1,2,]'' [], [Number_value one, Number_value two])
         \<and> Value_parse (Suc (Suc (Suc (Suc fuel)))) strict strtod (istream_of ''[1,2,]'') val
           = Some (True, stream_at ''[1,2,]'' [], Array_value [Number_value one, Number_value two])
         \<and> Value_parse (Suc fuel) strict strtod (stream_at ''[1,2,'' '']'') Invalid_value
           = Some (False, stream_at ''[1,2,'' '']'', Invalid_value)"
  using assms
  by (cases strict)
     (simp_all add: parser_defs stream_defs scalar_defs stream_at_def)

theorem array_trailing_comma_witness:
  "Array_parse 3 True Some (istream_of ''[1,2,]'')
     = Some (True, stream_at ''[1,2,]'' [], [Number_value ''1'', Number_value ''2''])
   \<and> Array_parse 3 False Some (istream_of ''[1,2,]'')
     = Some (True, stream_at ''[1,2,]'' [], [Number_value ''1'', Number_value ''2''])"
  using array_trailing_comma [where strtod = Some and one = "''1''" and two = "''2''"
      and fuel = 0 and strict = True]
    array_trailing_comma [where strtod = Some and one = "''1''" and two = "''2''"
      and fuel = 0 and strict = False]
  by (simp add: numeral_3_eq_3)

subsection \<open>C6: single quotes and a trailing comma in an object\<close>

text \<open>
  C6: in lenient mode \<^verbatim>\<open>{'a':1,}\<close> parses as an object, with the single-quoted key and
  the comma before the closing brace; in strict mode the same text is rejected (at the
  key, with nothing stored).
\<close>

theorem object_lenient_strict:
  assumes "strtod ''1'' = Some one"
  shows "Object_parse (Suc (Suc fuel)) False strtod
             (istream_of (''{'' @ [squote] @ ''a'' @ [squote] @ '':1,}''))
           = Some (True, stream_at (''{'' @ [squote] @ ''a'' @ [squote] @ '':1,}'') [],
                   [(''a'', Number_value one)])
         \<and> Object_parse (Suc fuel) True strtod
             (istream_of (''{'' @ [squote] @ ''a'' @ [squote] @ '':1,}''))
           = Some (False, stream_at ''{'' ([squote] @ ''a'' @ [squote] @ '':1,}''), [])"
  using assms
  by (simp add: parser_defs stream_defs scalar_defs stream_at_def)

theorem object_lenient_strict_witness:
  "Object_parse 2 False Some (istream_of (''{'' @ [squote] @ ''a'' @ [squote] @ '':1,}''))
     = Some (True, stream_at (''{'' @ [squote] @ ''a'' @ [squote] @ '':1,}'') [],
             [(''a'', Number_value ''1'')])
   \<and> (\<exists>s m. Object_parse 2 True Some (istream_of (''{'' @ [squote] @ ''a'' @ [squote] @ '':1,}''))
              = Some (False, s, m :: string Object))"
  using object_lenient_strict [where strtod = Some and one = "''1''" and fuel = 0]
    object_lenient_strict [where strtod = Some and one = "''1''" and fuel = 1]
  by (simp add: numeral_2_eq_2)

subsection \<open>C7: escapes written by the JSON serializer\<close>

text \<open>
  C7 says that \<open>stream_string\<close> writes the eight named characters as two-character
  escapes, every byte below 32 as \<^verbatim>\<open>\u\<close> and six hexadecimal digits, and every other
  byte unchanged. The test of the source is \<^verbatim>\<open>*i < 32\<close> on a plain \<^verbatim>\<open>char\<close>. Where
  \<^verbatim>\<open>char\<close> is signed, a byte of 128 or more is negative, passes the test, and is
  written as \<^verbatim>\<open>\u\<close> and the eight hexadecimal digits of the sign-extended \<^verbatim>\<open>int\<close>:
  the byte C3 is not passed through. Where \<^verbatim>\<open>char\<close> is unsigned, and for the bytes
  below 128 anywhere, the function writes what C7 says (\<open>stream_char_unsigned\<close>,
  \<open>stream_char_signed_ascii\<close>).
\<close>

theorem stream_string_high_byte:
  "stream_string True [CHR 0xC3] = [dquote, backslash] @ ''uffffffc3'' @ [dquote]"
  by (simp add: stream_string_def stream_char_def int_of_char_def hex_of_int_def
      hex_of_nat.simps hex_digit_def setw_fill_def)

subsection \<open>C8: the value after a failed parse\<close>

text \<open>
  C8 says that a \<open>Value\<close>, also one that a previous parse has filled, is in the invalid
  state after a parse on which every variant fails. \<^verbatim>\<open>Value::reset\<close> deletes the old
  payload and leaves \<^verbatim>\<open>type_\<close> alone, and no failing path of \<^verbatim>\<open>Value::parse\<close>
  assigns to it: a value that held the string \<open>x\<close> still has the tag of a string after
  the failed parse of \<open>?\<close>. In general a failed parse returns the value as it was
  (\<open>failed_parse_leaves_value\<close>), so only a value that was of no type before is of no
  type after.
\<close>

theorem failed_parse_keeps_old_tag:
  "Value_parse (Suc fuel) strict strtod (istream_of ([dquote] @ ''x'' @ [dquote])) Invalid_value
     = Some (True, stream_at ([dquote] @ ''x'' @ [dquote]) [], String_value ''x'')
   \<and> (\<exists>s v. Value_parse (Suc fuel) strict strtod (istream_of ''?'') (String_value ''x'')
               = Some (False, s, v) \<and> value_type v = STRING)"
  by (cases strict)
     (simp_all add: parser_defs stream_defs scalar_defs stream_at_def)

subsection \<open>C9: XML header and root attributes\<close>

text \<open>
  C9: in both dialects the XML of an object or an array is, in this order: the header,
  by default the XML declaration; the open tag of the root, which is the element of the
  root, the attribute block and the closing bracket; the children, each written as a
  node below the root, at depth 1; the close tag of the root. The header and the
  attribute block occur at these two places only: no function that writes the children
  is given either of them, and an open tag below the root is closed right after its
  element and name. A header or an attribute string that is not empty takes the place
  of the default. The default block is empty for jxml and is the schema location and the
  two name spaces for jsonx.
\<close>

theorem xml_header_and_root_attributes:
  "Object_xml num_put xml_tag kv fmt header attrib =
     (if header = []
      then ''<?xml version='' @ [dquote] @ ''1.0'' @ [dquote] @ '' encoding='' @ [dquote] @ ''UTF-8''
             @ [dquote] @ ''?>'' @ xml_tag @ [CHR 0x0A]
      else header)
     @ (case fmt of jsonx \<Rightarrow> ''<json:object'' | jxml \<Rightarrow> ''<j son='' @ [dquote] @ ''o'' @ [dquote])
     @ (if attrib = []
        then (case fmt of
                jsonx \<Rightarrow>
                  '' xsi:schemaLocation='' @ [dquote]
                    @ ''http://www.datapower.com/schemas/json jsonx.xsd'' @ [dquote]
                    @ '' xmlns:xsi='' @ [dquote]
                    @ ''http://www.w3.org/2001/XMLSchema-instance'' @ [dquote]
                    @ '' xmlns:json='' @ [dquote]
                    @ ''http://www.ibm.com/xmlns/prod/2009/jsonx'' @ [dquote]
              | jxml \<Rightarrow> [])
        else attrib)
     @ ''>'' @ [CHR 0x0A]
     @ concat (map (\<lambda>it. inner_node num_put fmt 1 (fst it) (snd it)) kv)
     @ (case fmt of jsonx \<Rightarrow> ''</json:object>'' | jxml \<Rightarrow> ''</j>'') @ [CHR 0x0A]
   \<and> Array_xml num_put xml_tag values fmt header attrib =
     (if header = []
      then ''<?xml version='' @ [dquote] @ ''1.0'' @ [dquote] @ '' encoding='' @ [dquote] @ ''UTF-8''
             @ [dquote] @ ''?>'' @ xml_tag @ [CHR 0x0A]
      else header)
     @ (case fmt of jsonx \<Rightarrow> ''<json:array'' | jxml \<Rightarrow> ''<j son='' @ [dquote] @ ''a'' @ [dquote])
     @ (if attrib = []
        then (case fmt of
                jsonx \<Rightarrow>
                  '' xsi:schemaLocation='' @ [dquote]
                    @ ''http://www.datapower.com/schemas/json jsonx.xsd'' @ [dquote]
                    @ '' xmlns:xsi='' @ [dquote]
                    @ ''http://www.w3.org/2001/XMLSchema-instance'' @ [dquote]
                    @ '' xmlns:json='' @ [dquote]
                    @ ''http://www.ibm.com/xmlns/prod/2009/jsonx'' @ [dquote]
              | jxml \<Rightarrow> [])
        else attrib)
     @ ''>'' @ [CHR 0x0A]
     @ concat (map (\<lambda>it. inner_node num_put fmt 1 [] it) values)
     @ (case fmt of jsonx \<Rightarrow> ''</json:array>'' | jxml \<Rightarrow> ''</j>'') @ [CHR 0x0A]"
  by (cases fmt)
     (simp_all add: Object_xml_def Array_xml_def defheader_def defrootattrib_def tag_inner_node
        open_tag_def close_tag_def)

theorem xml_header_and_root_attributes_witness:
  "Object_xml id [] [(''a'', Object_value [(''b'', Array_value [Null_value, Bool_value True])])] jsonx [] [] =
     ''<?xml version='' @ [dquote] @ ''1.0'' @ [dquote] @ '' encoding='' @ [dquote] @ ''UTF-8''
       @ [dquote] @ ''?>'' @ [CHR 0x0A]
     @ ''<json:object xsi:schemaLocation='' @ [dquote]
       @ ''http://www.datapower.com/schemas/json jsonx.xsd'' @ [dquote]
       @ '' xmlns:xsi='' @ [dquote] @ ''http://www.w3.org/2001/XMLSchema-instance'' @ [dquote]
       @ '' xmlns:json='' @ [dquote] @ ''http://www.ibm.com/xmlns/prod/2009/jsonx'' @ [dquote]
       @ ''>'' @ [CHR 0x0A]
     @ [CHR 0x09] @ ''<json:object name='' @ [dquote] @ ''a'' @ [dquote] @ ''>'' @ [CHR 0x0A]
     @ [CHR 0x09, CHR 0x09] @ ''<json:array name='' @ [dquote] @ ''b'' @ [dquote] @ ''>'' @ [CHR 0x0A]
     @ [CHR 0x09, CHR 0x09, CHR 0x09] @ ''<json:null />'' @ [CHR 0x0A]
     @ [CHR 0x09, CHR 0x09, CHR 0x09] @ ''<json:boolean>true</json:boolean>'' @ [CHR 0x0A]
     @ [CHR 0x09, CHR 0x09] @ ''</json:array>'' @ [CHR 0x0A]
     @ [CHR 0x09] @ ''</json:object>'' @ [CHR 0x0A]
     @ ''</json:object>'' @ [CHR 0x0A]
   \<and> Array_xml id [] [Array_value [], String_value ''x''] jxml ''<?xml?>'' '' id='' =
     ''<?xml?><j son='' @ [dquote] @ ''a'' @ [dquote] @ '' id=>'' @ [CHR 0x0A]
     @ [CHR 0x09] @ ''<j son='' @ [dquote] @ ''a'' @ [dquote] @ ''>'' @ [CHR 0x0A]
     @ [CHR 0x09] @ ''</j>'' @ [CHR 0x0A]
     @ [CHR 0x09] @ ''<j son='' @ [dquote] @ ''s'' @ [dquote] @ ''>x</j>'' @ [CHR 0x0A]
     @ ''</j>'' @ [CHR 0x0A]"
  using xml_header_and_root_attributes [of id "[]"
      "[(''a'', Object_value [(''b'', Array_value [Null_value, Bool_value True])])]" jsonx "[]" "[]"]
    xml_header_and_root_attributes [of id "[]" _ jxml "''<?xml?>''" "'' id=''"
      "[Array_value [], String_value ''x'']"]
  by (simp add: element_def element_end_def jsonx_element_def indent_def escape_string_def
      escape_tag_def numeral_2_eq_2)

subsection \<open>C10: the value slot of the string parser\<close>

text \<open>
  C10: \<open>parse_string\<close> never clears the slot it is given, and a successful call
  appends to it the characters decoded. On every stream and whatever the slot holds,
  the call returns the flag and the stream that it returns on the empty slot, and the
  slot holds its former content followed by what the call on the empty slot yields.
  On a good stream that holds, after white space, a double-quoted literal, the call
  succeeds, stops after the closing quote, and the slot holds its former content
  followed by the decoded characters of the literal; so does the lenient call on a
  single-quoted literal.
\<close>

theorem parse_string_appends:
  "parse_string strict input slot =
     (case parse_string strict input [] of (ok, s', decoded) \<Rightarrow> (ok, s', slot @ decoded))
   \<and> ((\<forall>x \<in> set w. isspace x) \<and> decode dquote chars = Some (v, rest) \<longrightarrow>
        parse_string strict (stream_at pre (w @ dquote # chars)) slot
          = (True, stream_at (pre @ w @ dquote # literal_end chars rest) rest, slot @ v))
   \<and> ((\<forall>x \<in> set w. isspace x) \<and> decode squote chars = Some (v, rest) \<longrightarrow>
        parse_string False (stream_at pre (w @ squote # chars)) slot
          = (True, stream_at (pre @ w @ squote # literal_end chars rest) rest, slot @ v))"
proof (intro conjI impI)
  obtain ok s1 where m: "match [dquote] input = (ok, s1)"
    by (cases "match [dquote] input")
  obtain s2 c where p: "peek s1 = (s2, c)"
    by (cases "peek s1")
  obtain s3 ch where g: "get s2 (CHR 0x00) = (s3, ch)"
    by (cases "get s2 (CHR 0x00)")
  show "parse_string strict input slot =
     (case parse_string strict input [] of (ok, s', decoded) \<Rightarrow> (ok, s', slot @ decoded))"
    by (simp add: parse_string_def m p g parse_string_body_append [of _ _ _ slot])
next
  assume "(\<forall>x \<in> set w. isspace x) \<and> decode dquote chars = Some (v, rest)"
  then show "parse_string strict (stream_at pre (w @ dquote # chars)) slot
          = (True, stream_at (pre @ w @ dquote # literal_end chars rest) rest, slot @ v)"
    using parse_string_double_quoted [of w chars v rest strict pre slot] by simp
next
  assume "(\<forall>x \<in> set w. isspace x) \<and> decode squote chars = Some (v, rest)"
  then show "parse_string False (stream_at pre (w @ squote # chars)) slot
          = (True, stream_at (pre @ w @ squote # literal_end chars rest) rest, slot @ v)"
    using parse_string_single_quoted [of w chars v rest pre slot] by simp
qed

theorem parse_string_appends_witness:
  "decode dquote (''cd'' @ [dquote]) = Some (''cd'', [])
   \<and> parse_string True (istream_of ([dquote] @ ''cd'' @ [dquote])) ''ab''
       = (True, stream_at ([dquote] @ ''cd'' @ [dquote]) [], ''abcd'')
   \<and> parse_string True (istream_of ([dquote] @ ''cd'' @ [dquote])) []
       = (True, stream_at ([dquote] @ ''cd'' @ [dquote]) [], ''cd'')
   \<and> decode squote (''c'' @ [backslash] @ ''nd'' @ [squote] @ '','')
       = Some (''c'' @ [CHR 0x0A] @ ''d'', '','')
   \<and> parse_string False (istream_of ('' '' @ [squote] @ ''c'' @ [backslash] @ ''nd'' @ [squote] @ '','')) ''ab''
       = (True, stream_at ('' '' @ [squote] @ ''c'' @ [backslash] @ ''nd'' @ [squote]) '','',
          ''abc'' @ [CHR 0x0A] @ ''d'')"
proof -
  have plain: "parse_string True (istream_of ([dquote] @ ''cd'' @ [dquote])) slot
       = (True, stream_at ([dquote] @ ''cd'' @ [dquote]) [], slot @ ''cd'')" for slot
    using parse_string_appends [where strict = True and w = "[]" and chars = "''cd'' @ [dquote]"
        and v = "''cd''" and rest = "[]" and pre = "[]" and slot = slot,
        THEN conjunct2, THEN conjunct1]
    by (simp add: istream_of_stream_at literal_end_def)
  have escaped: "parse_string False
         (istream_of ('' '' @ [squote] @ ''c'' @ [backslash] @ ''nd'' @ [squote] @ '','')) ''ab''
       = (True, stream_at ('' '' @ [squote] @ ''c'' @ [backslash] @ ''nd'' @ [squote]) '','',
          ''abc'' @ [CHR 0x0A] @ ''d'')"
    using parse_string_appends [where w = "'' ''"
        and chars = "''c'' @ [backslash] @ ''nd'' @ [squote] @ '',''"
        and v = "''c'' @ [CHR 0x0A] @ ''d''" and rest = "'',''" and pre = "[]" and slot = "''ab''",
        THEN conjunct2, THEN conjunct2]
    by (simp add: istream_of_stream_at literal_end_def unescape_def isspace_def)
  show ?thesis
    using plain [of "''ab''"] plain [of "[]"] escaped by (simp add: unescape_def)
qed

subsection \<open>C3: the order of the alternatives\<close>

text \<open>
  C3: \<open>Value::parse\<close> tries String, Number, Boolean, Null, Array and Object in this
  order, the array only when the peek gives an opening bracket and the object whenever
  all before it have failed. The function translated from the source is the function
  that walks the list of variants in that order.
\<close>

theorem Value_parse_tries_in_order:
  "Value_parse (Suc fuel) strict strtod input val =
     Value_parse_in_order strict strtod (Array_parse fuel strict strtod)
       (Object_parse fuel strict strtod) input val"
proof -
  obtain ok1 s1 str where a: "parse_string strict input [] = (ok1, s1, str)"
    by (cases "parse_string strict input []")
  obtain ok2 s2 n where b: "parse_number strtod s1 = (ok2, s2, n)"
    by (cases "parse_number strtod s1")
  obtain ok3 s3 bv where c: "parse_bool s2 = (ok3, s3, bv)"
    by (cases "parse_bool s2")
  obtain ok4 s4 where d: "parse_null strict s3 = (ok4, s4)"
    by (cases "parse_null strict s3")
  obtain s5 ch where e: "peek s4 = (s5, ch)"
    by (cases "peek s4")
  show ?thesis
    by (simp add: Value_parse_in_order_def Value_parse_body_def Array_parse_def Object_parse_def
        a b c d e split: option.splits)
qed

theorem Value_parse_tries_in_order_witness:
  "Value_parse 2 True Some (istream_of ''true'') Invalid_value =
     Value_parse_in_order True Some (Array_parse 1 True Some) (Object_parse 1 True Some)
       (istream_of ''true'') Invalid_value
   \<and> Value_parse 2 True Some (istream_of ''true'') Invalid_value
       = Some (True, stream_at ''true'' [], Bool_value True :: string Value)"
proof -
  have "Value_parse (Suc 1) True Some (istream_of ''true'') (Invalid_value :: string Value) =
     Value_parse_in_order True Some (Array_parse 1 True Some) (Object_parse 1 True Some)
       (istream_of ''true'') Invalid_value"
    by (rule Value_parse_tries_in_order)
  moreover have "Value_parse (Suc 1) True Some (istream_of ''true'') Invalid_value
       = Some (True, stream_at ''true'' [], Bool_value True :: string Value)"
    by (simp add: parser_defs stream_defs scalar_defs stream_at_def)
  ultimately show ?thesis by (simp add: numeral_2_eq_2)
qed

subsection \<open>C4: objects are written in ascending key order\<close>



subsection \<open>C1: writing a parsed document and parsing it again\<close>

text \<open>
  C1 says that for every valid JSON document the tree parsed from the serialized tree
  equals the tree parsed from the document. The code does not achieve it for a document
  with a string outside ASCII where plain \<^verbatim>\<open>char\<close> is signed, by the defect of C7:
  the test \<^verbatim>\<open>*i < 32\<close> of \<open>stream_string\<close> takes a byte of 128 or more for a
  control character. The document is the string e-acute in UTF-8, the bytes C3 A9
  between quotes. It parses to the string of these two bytes; the tree is written with
  two \<^verbatim>\<open>\u\<close> escapes of eight hexadecimal digits each; the parser decodes no
  \<^verbatim>\<open>\u\<close> escape, and the second tree holds a string of twenty characters.
\<close>

theorem round_trip_high_bytes:
  "Value_parse 1 True Some (istream_of [dquote, CHR 0xC3, CHR 0xA9, dquote]) Invalid_value
     = Some (True, stream_at [dquote, CHR 0xC3, CHR 0xA9, dquote] [],
             String_value [CHR 0xC3, CHR 0xA9])
   \<and> Value_out id True (String_value [CHR 0xC3, CHR 0xA9])
     = [dquote, backslash] @ ''uffffffc3'' @ [backslash] @ ''uffffffa9'' @ [dquote]
   \<and> Value_parse 1 True Some
       (istream_of (Value_out id True (String_value [CHR 0xC3, CHR 0xA9]))) Invalid_value
     = Some (True,
         stream_at ([dquote, backslash] @ ''uffffffc3'' @ [backslash] @ ''uffffffa9'' @ [dquote]) [],
         String_value ([backslash] @ ''uffffffc3'' @ [backslash] @ ''uffffffa9''))
   \<and> String_value ([backslash] @ ''uffffffc3'' @ [backslash] @ ''uffffffa9'')
       \<noteq> (String_value [CHR 0xC3, CHR 0xA9] :: string Value)"
proof -
  have out: "Value_out id True (String_value [CHR 0xC3, CHR 0xA9])
     = [dquote, backslash] @ ''uffffffc3'' @ [backslash] @ ''uffffffa9'' @ [dquote]"
    by (simp add: stream_string_def stream_char_def int_of_char_def hex_of_int_def
        hex_of_nat.simps hex_digit_def setw_fill_def)
  have first: "Value_parse 1 True Some (istream_of [dquote, CHR 0xC3, CHR 0xA9, dquote])
       (Invalid_value :: string Value)
     = Some (True, stream_at [dquote, CHR 0xC3, CHR 0xA9, dquote] [],
             String_value [CHR 0xC3, CHR 0xA9])"
    by (simp add: parser_defs stream_defs scalar_defs stream_at_def)
  have again: "Value_parse 1 True Some
       (istream_of ([dquote, backslash] @ ''uffffffc3'' @ [backslash] @ ''uffffffa9'' @ [dquote]))
       (Invalid_value :: string Value)
     = Some (True,
         stream_at ([dquote, backslash] @ ''uffffffc3'' @ [backslash] @ ''uffffffa9'' @ [dquote]) [],
         String_value ([backslash] @ ''uffffffc3'' @ [backslash] @ ''uffffffa9''))"
    by (simp add: parser_defs stream_defs scalar_defs stream_at_def)
  show ?thesis
    unfolding out using first again by simp
qed

text \<open>Where plain \<^verbatim>\<open>char\<close> is unsigned the same document is written as it was
  read, and read again to the same tree.\<close>

lemma unsigned_high_bytes_written_and_read:
  "Value_out id False (String_value [CHR 0xC3, CHR 0xA9]) = [dquote, CHR 0xC3, CHR 0xA9, dquote]
   \<and> Value_parse 1 True Some
       (istream_of (Value_out id False (String_value [CHR 0xC3, CHR 0xA9]))) Invalid_value
     = Some (True, stream_at [dquote, CHR 0xC3, CHR 0xA9, dquote] [],
             String_value [CHR 0xC3, CHR 0xA9])"
proof -
  have out: "Value_out id False (String_value [CHR 0xC3, CHR 0xA9])
               = [dquote, CHR 0xC3, CHR 0xA9, dquote]"
    by (simp add: stream_string_def stream_char_def int_of_char_def)
  have again: "Value_parse 1 True Some (istream_of [dquote, CHR 0xC3, CHR 0xA9, dquote])
       (Invalid_value :: string Value)
     = Some (True, stream_at [dquote, CHR 0xC3, CHR 0xA9, dquote] [],
             String_value [CHR 0xC3, CHR 0xA9])"
    by (simp add: parser_defs stream_defs scalar_defs stream_at_def)
  show ?thesis unfolding out using again by simp
qed

text \<open>
  Apart from that defect the code does what C1 says. Let a document parse to a tree. If
  no string and no key of the tree holds a character that the serializer writes as a
  \<^verbatim>\<open>\u\<close> escape, and every number of the tree is read back from the text the
  platform writes for it, then the text of the tree parses, in either mode and with any
  budget of at least the size of the tree, to the same tree, the whole text being read.
  Number formatting and conversion are the parameters \<open>num_put\<close> and \<open>strtod\<close>.
\<close>

theorem round_trip_read_back:
  assumes "Value_parse fuel strict strtod (istream_of document) val = Some (True, s, v)"
    and "read_back strtod num_put char_signed v"
    and "fuel_for v \<le> fuel'"
  shows "Value_parse fuel' strict' strtod (istream_of (Value_out num_put char_signed v)) val'
           = Some (True, stream_after v (Value_out num_put char_signed v) [], v)"
proof -
  have "objects_sorted v"
    using assms(1) by (rule Value_parse_objects_sorted)
  then show ?thesis
    using Value_parse_written [OF assms(2) _ assms(3), of "[]" "[]" strict' "[]" val']
    by (simp add: istream_of_stream_at value_end_def)
qed

theorem round_trip_read_back_example:
  "Value_parse 5 True Some
       (istream_of (''{'' @ [dquote] @ ''b'' @ [dquote] @ '':[1.50,true,null],''
                    @ [dquote] @ ''a'' @ [dquote, CHR '':'', dquote, backslash] @ ''n'' @ [dquote] @ ''}''))
       Invalid_value
     = Some (True,
         stream_at (''{'' @ [dquote] @ ''b'' @ [dquote] @ '':[1.50,true,null],''
                    @ [dquote] @ ''a'' @ [dquote, CHR '':'', dquote, backslash] @ ''n'' @ [dquote] @ ''}'') [],
         Object_value [(''a'', String_value [CHR 0x0A]),
           (''b'', Array_value [Number_value ''1.50'', Bool_value True, Null_value])])
   \<and> Value_out id True
         (Object_value [(''a'', String_value [CHR 0x0A]),
           (''b'', Array_value [Number_value ''1.50'', Bool_value True, Null_value])])
     = ''{'' @ [dquote] @ ''a'' @ [dquote] @ '': '' @ [dquote, backslash] @ ''n'' @ [dquote]
       @ '', '' @ [dquote] @ ''b'' @ [dquote] @ '': [1.50, true, null]}''
   \<and> (\<exists>s'. Value_parse 13 False Some
         (istream_of (''{'' @ [dquote] @ ''a'' @ [dquote] @ '': '' @ [dquote, backslash] @ ''n'' @ [dquote]
            @ '', '' @ [dquote] @ ''b'' @ [dquote] @ '': [1.50, true, null]}''))
         Null_value
       = Some (True, s',
           Object_value [(''a'', String_value [CHR 0x0A]),
             (''b'', Array_value [Number_value ''1.50'', Bool_value True, Null_value])]))"
proof -
  let ?v = "Object_value [(''a'', String_value [CHR 0x0A]),
           (''b'', Array_value [Number_value ''1.50'', Bool_value True, Null_value])]"
  have first: "Value_parse 5 True Some
       (istream_of (''{'' @ [dquote] @ ''b'' @ [dquote] @ '':[1.50,true,null],''
                    @ [dquote] @ ''a'' @ [dquote, CHR '':'', dquote, backslash] @ ''n'' @ [dquote] @ ''}''))
       Invalid_value
     = Some (True,
         stream_at (''{'' @ [dquote] @ ''b'' @ [dquote] @ '':[1.50,true,null],''
                    @ [dquote] @ ''a'' @ [dquote, CHR '':'', dquote, backslash] @ ''n'' @ [dquote] @ ''}'') [],
         ?v)"
    by (simp add: parser_defs stream_defs scalar_defs stream_at_def eval_nat_numeral
        less_list_code less_char_def)
  have rb: "read_back Some id True ?v"
    by (simp add: number_read_back_def extract_float_def float_zeros_def is_digit_def is_sign_def
        char_read_back_def int_of_char_def less_eq_char_def)
  have out: "Value_out id True ?v
     = ''{'' @ [dquote] @ ''a'' @ [dquote] @ '': '' @ [dquote, backslash] @ ''n'' @ [dquote]
       @ '', '' @ [dquote] @ ''b'' @ [dquote] @ '': [1.50, true, null]}''"
    by (simp add: stream_string_def stream_char_def int_of_char_def)
  have enough: "fuel_for ?v \<le> 13" by simp
  have again: "Value_parse 13 False Some (istream_of (Value_out id True ?v)) Null_value
                 = Some (True, stream_after ?v (Value_out id True ?v) [], ?v)"
    by (rule round_trip_read_back [OF first rb enough])
  show ?thesis
    by (intro conjI exI, rule first, rule out, rule again [unfolded out])
qed

end
